theory Spec2Isabelle
  imports Main "HOL-Library.Char_ord" "HOL-Library.List_Lexorder" "HOL-Library.Multiset"
begin

section \<open>JSON values and their serialisations\<close>

text \<open>
  The processing engine treats the cache state, the entities, the relations and the
  refresh keys as JSON data. A JavaScript object is an association list in the order of
  its keys; a well-formed object has no key twice (\<open>wf_json\<close>). A number is a double
  with an integer value, written in decimal; numbers with a fraction and the exponent
  form of very large numbers are outside the model.
\<close>

datatype json =
    JNull
  | JBool bool
  | JNum int
  | JStr string
  | JArr "json list"
  | JObj "(string \<times> json) list"

type_synonym jobj = "(string \<times> json) list"

fun wf_json :: "json \<Rightarrow> bool" where
  "wf_json (JArr xs) = (\<forall>x \<in> set xs. wf_json x)"
| "wf_json (JObj kvs) = (distinct (map fst kvs) \<and> (\<forall>kv \<in> set kvs. wf_json (snd kv)))"
| "wf_json _ = True"

subsection \<open>Numbers and strings as JSON text\<close>

definition digit_char :: "nat \<Rightarrow> char" where
  "digit_char d = char_of (48 + d)"

fun digits :: "nat \<Rightarrow> string" where
  "digits n = (if n < 10 then [digit_char n] else digits (n div 10) @ [digit_char (n mod 10)])"

declare digits.simps [simp del]

text \<open>\<open>'' + n\<close> for an integer \<open>n\<close>.\<close>

definition string_of_int :: "int \<Rightarrow> string" where
  "string_of_int n = (if n < 0 then CHR ''-'' # digits (nat (- n)) else digits (nat n))"

definition hex_char :: "nat \<Rightarrow> char" where
  "hex_char d = (if d < 10 then char_of (48 + d) else char_of (87 + d))"

text \<open>
  \<open>JSON.stringify\<close> on a string: the quote and the backslash are escaped, the control
  characters have their short escape or the form \<open>\u00XX\<close>.
\<close>

definition escape_char :: "char \<Rightarrow> string" where
  "escape_char c =
     (if c = CHR 0x22 then [CHR 0x5C, CHR 0x22]
      else if c = CHR 0x5C then [CHR 0x5C, CHR 0x5C]
      else if c = CHR 0x08 then [CHR 0x5C, CHR ''b'']
      else if c = CHR 0x0C then [CHR 0x5C, CHR ''f'']
      else if c = CHR 0x0A then [CHR 0x5C, CHR ''n'']
      else if c = CHR 0x0D then [CHR 0x5C, CHR ''r'']
      else if c = CHR 0x09 then [CHR 0x5C, CHR ''t'']
      else if (of_char c :: nat) < 32
        then [CHR 0x5C, CHR ''u'', CHR ''0'', CHR ''0'',
              hex_char (of_char c div 16), hex_char (of_char c mod 16)]
      else [c])"

definition quote :: "string \<Rightarrow> string" where
  "quote s = CHR 0x22 # concat (map escape_char s) @ [CHR 0x22]"

fun commas :: "string list \<Rightarrow> string" where
  "commas [] = []"
| "commas [x] = x"
| "commas (x # y # ys) = x @ CHR '','' # commas (y # ys)"

subsection \<open>\<open>JSON.stringify\<close> and \<open>stableStringify\<close>\<close>

fun JSON_stringify :: "json \<Rightarrow> string" where
  "JSON_stringify JNull = ''null''"
| "JSON_stringify (JBool b) = (if b then ''true'' else ''false'')"
| "JSON_stringify (JNum n) = string_of_int n"
| "JSON_stringify (JStr s) = quote s"
| "JSON_stringify (JArr xs) = CHR ''['' # commas (map JSON_stringify xs) @ '']''"
| "JSON_stringify (JObj kvs) =
     CHR ''{'' # commas (map (\<lambda>kv. quote (fst kv) @ CHR '':'' # JSON_stringify (snd kv)) kvs) @ ''}''"

text \<open>
  \<open>stableStringify\<close> (the package fast-json-stable-stringify) walks the value like
  \<open>JSON.stringify\<close> but visits the keys of every object in sorted order
  (\<open>Object.keys(node).sort()\<close>, the order of the code units). For an object, which has
  no key twice, sorting the members by key is the library's loop over the sorted keys.
  Members whose value is \<open>undefined\<close>, which the library skips, do not occur in JSON
  data.
\<close>

function stableStringify :: "json \<Rightarrow> string" where
  "stableStringify JNull = ''null''"
| "stableStringify (JBool b) = (if b then ''true'' else ''false'')"
| "stableStringify (JNum n) = string_of_int n"
| "stableStringify (JStr s) = quote s"
| "stableStringify (JArr xs) = CHR ''['' # commas (map stableStringify xs) @ '']''"
| "stableStringify (JObj kvs) =
     CHR ''{'' # commas (map (\<lambda>kv. quote (fst kv) @ CHR '':'' # stableStringify (snd kv))
                          (sort_key fst kvs)) @ ''}''"
  by pat_completeness auto
termination
proof (relation "measure size")
  fix kvs :: "(string \<times> json) list" and kv
  assume "kv \<in> set (sort_key fst kvs)"
  then have "kv \<in> set kvs" by simp
  then have "size (snd kv) < Suc (size_list (size_prod (\<lambda>_. 0) size) kvs)"
    by (induction kvs) (auto simp: less_Suc_eq_le)
  then show "(snd kv, JObj kvs) \<in> measure size" by simp
next
  fix xs :: "json list" and x
  assume "x \<in> set xs"
  then have "size x < Suc (size_list size xs)"
    by (induction xs) auto
  then show "(x, JArr xs) \<in> measure size" by simp
qed simp

text \<open>Sorting the keys at every depth gives the canonical form of a value.\<close>

fun canonical :: "json \<Rightarrow> json" where
  "canonical (JArr xs) = JArr (map canonical xs)"
| "canonical (JObj kvs) = JObj (sort_key fst (map (\<lambda>kv. (fst kv, canonical (snd kv))) kvs))"
| "canonical j = j"

text \<open>Two values are semantically equal when they differ in the order of keys only.\<close>

definition json_equiv :: "json \<Rightarrow> json \<Rightarrow> bool" where
  "json_equiv a b = (canonical a = canonical b)"


subsection \<open>Reading a serialisation back\<close>

text \<open>
  What the proofs about the serialisations use: the digits of a number and their value,
  the characters that may follow a value inside an array or an object, and the
  constructor of a value as its first character tells it.
\<close>

definition is_digit :: "char \<Rightarrow> bool" where
  "is_digit c = (48 \<le> (of_char c :: nat) \<and> (of_char c :: nat) < 58)"

definition digit_value :: "string \<Rightarrow> nat" where
  "digit_value s = foldl (\<lambda>a c. 10 * a + (of_char c - 48)) 0 s"

definition delimited :: "string \<Rightarrow> bool" where
  "delimited r = (r = [] \<or> hd r = CHR '','' \<or> hd r = CHR '']'' \<or> hd r = CHR ''}'')"

fun tag :: "json \<Rightarrow> nat" where
  "tag JNull = 0"
| "tag (JBool b) = 1"
| "tag (JNum n) = 2"
| "tag (JStr s) = 3"
| "tag (JArr xs) = 4"
| "tag (JObj kvs) = 5"

definition first_tag :: "char \<Rightarrow> nat" where
  "first_tag c =
     (if c = CHR ''n'' then 0
      else if c = CHR ''t'' \<or> c = CHR ''f'' then 1
      else if c = CHR 0x22 then 3
      else if c = CHR ''['' then 4
      else if c = CHR ''{'' then 5
      else 2)"

subsection \<open>Objects and sets as JavaScript builds them\<close>

text \<open>
  Assigning a property replaces the value of a key that is present, in its place, and
  appends a new key at the end; an object spread assigns the properties of the source
  in order. (For keys that look like array indices a JavaScript engine has an order of
  its own; the statements below are about values, lookups, and values up to key order.)
\<close>

fun obj_set :: "jobj \<Rightarrow> string \<Rightarrow> json \<Rightarrow> jobj" where
  "obj_set [] k v = [(k, v)]"
| "obj_set (kv # kvs) k v = (if fst kv = k then (k, v) # kvs else kv # obj_set kvs k v)"

definition obj_spread :: "jobj \<Rightarrow> jobj \<Rightarrow> jobj" where
  "obj_spread base src = foldl (\<lambda>acc kv. obj_set acc (fst kv) (snd kv)) base src"

text \<open>A \<open>Set<string>\<close> keeps its members in insertion order, each once.\<close>

definition set_add :: "string list \<Rightarrow> string \<Rightarrow> string list" where
  "set_add xs x = (if x \<in> set xs then xs else xs @ [x])"

definition new_Set :: "string list \<Rightarrow> string list" where
  "new_Set xs = foldl set_add [] xs"

section \<open>The data of the processing engine\<close>

datatype js_error = Error (err_name: string) (err_message: string)

text \<open>JavaScript can throw any value: an \<open>Error\<close> object or anything else.\<close>

datatype thrown = ThrownError js_error | ThrownValue json

datatype relation = EntityRelationSpec (source: json) (rel_type: string) (target: json)

definition json_of_relation :: "relation \<Rightarrow> json" where
  "json_of_relation r =
     JObj [(''source'', source r), (''type'', JStr (rel_type r)), (''target'', target r)]"

datatype processing_result =
    ResultOk (result_state: jobj) (completedEntity: jobj) (deferredEntities: "json list")
             (relations: "relation list") (refreshKeys: "json list") (ok_errors: "js_error list")
  | ResultFailed (failed_errors: "js_error list")

fun ok :: "processing_result \<Rightarrow> bool" where
  "ok (ResultOk _ _ _ _ _ _) = True"
| "ok (ResultFailed _) = False"

fun errors :: "processing_result \<Rightarrow> js_error list" where
  "errors (ResultOk _ _ _ _ _ es) = es"
| "errors (ResultFailed es) = es"

text \<open>\<open>RefreshStateItem\<close>; the field \<open>id\<close> is \<open>item_id\<close> here.\<close>

record item =
  item_id :: string
  state :: "jobj option"
  unprocessedEntity :: jobj
  entityRef :: string
  locationKey :: "string option"
  resultHash :: string

text \<open>A stored relation row, as \<open>updateProcessedEntity\<close> returns the previous ones.\<close>

record db_relation =
  originating_entity_id :: string
  source_entity_ref :: string
  target_entity_ref :: string
  relation_type :: string

text \<open>The options object handed to \<open>updateProcessedEntity\<close>.\<close>

record update_options =
  upd_id :: string
  upd_processedEntity :: jobj
  upd_resultHash :: string
  upd_errors :: string
  upd_relations :: "relation list"
  upd_deferredEntities :: "json list"
  upd_locationKey :: "string option"
  upd_refreshKeys :: "json list"

text \<open>
  What one run of the per-item handler does to its surroundings, in order: calls of the
  store, the orchestrator, the stitcher and the hash, log lines, and the calls of the
  progress tracker.
\<close>

datatype event =
    ProcessStart string
  | CallProcess jobj "jobj option"
  | MarkProcessorsCompleted bool
  | CallUpdateEntityCache string jobj
  | LoggerWarn string string "json option"
  | CallListParents string
  | HashDigest "string list"
  | MarkSuccessfulWithNoChanges
  | NotifyObserver jobj "js_error list"
  | LoggerDebug thrown
  | CallUpdateProcessedEntityErrors string string string
  | CallUpdateProcessedEntity update_options
  | CallStitch "string list"
  | MarkSuccessfulWithErrors
  | MarkSuccessfulWithChanges nat
  | MarkFailed thrown
  | CallGetProcessableEntities nat
  | LoggerWarnLoad thrown

text \<open>
  The collaborators of the engine, each by what it answers: a store call stands for the
  whole transaction around it and either returns or throws. The functions that the
  engine imports from other packages (\<open>serializeError\<close>, \<open>stringifyEntityRef\<close>,
  \<open>assertError\<close>, the constant \<open>ANNOTATION_LOCATION\<close>) and the injected hash are
  parameters as well; \<open>hash_digest\<close> gives the digest of the chunks passed to
  \<open>update\<close>, in order. \<open>assertError v\<close> is \<open>None\<close> when the assertion passes and the
  error it throws otherwise.
\<close>

record collaborators =
  orchestrator_process :: "jobj \<Rightarrow> jobj option \<Rightarrow> thrown + processing_result"
  updateEntityCache :: "string \<Rightarrow> jobj \<Rightarrow> thrown option"
  listParents :: "string \<Rightarrow> thrown + string list"
  updateProcessedEntityErrors :: "string \<Rightarrow> string \<Rightarrow> string \<Rightarrow> thrown option"
  updateProcessedEntity :: "update_options \<Rightarrow> thrown + db_relation list"
  getProcessableEntities :: "nat \<Rightarrow> thrown + item list"
  stitch :: "string list \<Rightarrow> thrown option"
  hash_digest :: "string list \<Rightarrow> string"
  onProcessingError :: "(jobj \<Rightarrow> js_error list \<Rightarrow> thrown option) option"
  serializeError :: "js_error \<Rightarrow> json"
  stringifyEntityRef :: "json \<Rightarrow> string"
  assertError :: "thrown \<Rightarrow> thrown option"
  ANNOTATION_LOCATION :: string

subsection \<open>Steps that log and may throw\<close>

type_synonym 'a step = "event list \<times> (thrown + 'a)"

definition returns :: "'a \<Rightarrow> 'a step" where
  "returns x = ([], Inr x)"

definition emit :: "event list \<Rightarrow> unit step" where
  "emit evs = (evs, Inr ())"

definition call :: "event \<Rightarrow> thrown option \<Rightarrow> unit step" where
  "call ev r = ([ev], case r of None \<Rightarrow> Inr () | Some e \<Rightarrow> Inl e)"

definition call_value :: "event \<Rightarrow> thrown + 'a \<Rightarrow> 'a step" where
  "call_value ev r = ([ev], r)"

definition and_then :: "'a step \<Rightarrow> ('a \<Rightarrow> 'b step) \<Rightarrow> 'b step" where
  "and_then m f =
     (case snd m of
        Inl e \<Rightarrow> (fst m, Inl e)
      | Inr x \<Rightarrow> (fst m @ fst (f x), snd (f x)))"


section \<open>The per-item handler \<open>processTask\<close>\<close>

definition CACHE_TTL :: int where
  "CACHE_TTL = 5"

text \<open>\<open>stableStringify\<close> of a state that may be \<open>undefined\<close>.\<close>

definition stableStringify_state :: "jobj option \<Rightarrow> string option" where
  "stableStringify_state st = map_option (\<lambda>obj. stableStringify (JObj obj)) st"

text \<open>The state written after a success: \<open>{ ttl: CACHE_TTL, ...result.state }\<close>.\<close>

definition refreshed_state :: "jobj \<Rightarrow> jobj" where
  "refreshed_state rs = obj_spread [(''ttl'', JNum CACHE_TTL)] rs"

text \<open>\<open>Number.isInteger(state?.ttl) ? state.ttl : 0\<close>.\<close>

definition ttl_of :: "jobj option \<Rightarrow> int" where
  "ttl_of st =
     (case st of
        None \<Rightarrow> 0
      | Some obj \<Rightarrow> (case map_of obj ''ttl'' of Some (JNum n) \<Rightarrow> n | _ \<Rightarrow> 0))"

text \<open>
  \<open>ttl - 1\<close> on a double with an integer value. Up to \<open>2^53\<close> the result is exact. From
  there to \<open>2^54\<close> the doubles are the even numbers: the exact result is odd, half way
  between two of them, and rounds to the one whose significand is even. From \<open>2^54\<close>
  on the doubles are at least 4 apart and the result rounds back to \<open>ttl\<close>.
\<close>

definition js_minus_one :: "int \<Rightarrow> int" where
  "js_minus_one n =
     (if n \<le> 9007199254740992 then n - 1
      else if n < 18014398509481984
        then (if even (n div 2) then 2 * (n div 2) else 2 * (n div 2) - 2)
      else n)"

text \<open>The state written after a failure: \<open>ttl > 0 ? { ...state, ttl: ttl - 1 } : {}\<close>.\<close>

definition decayed_state :: "jobj option \<Rightarrow> jobj" where
  "decayed_state st =
     (let ttl = ttl_of st in
      if ttl > 0
      then obj_set (obj_spread [] (case st of None \<Rightarrow> [] | Some obj \<Rightarrow> obj)) ''ttl''
             (JNum (js_minus_one ttl))
      else [])"

definition cache_step :: "collaborators \<Rightarrow> item \<Rightarrow> processing_result \<Rightarrow> unit step" where
  "cache_step env it result =
     (if ok result then
        (if stableStringify_state (state it) \<noteq> Some (stableStringify (JObj (result_state result)))
         then call (CallUpdateEntityCache (item_id it) (refreshed_state (result_state result)))
                   (updateEntityCache env (item_id it) (refreshed_state (result_state result)))
         else returns ())
      else call (CallUpdateEntityCache (item_id it) (decayed_state (state it)))
                (updateEntityCache env (item_id it) (decayed_state (state it))))"

text \<open>\<open>unprocessedEntity?.metadata?.annotations?.[ANNOTATION_LOCATION]\<close>.\<close>

definition location_of :: "collaborators \<Rightarrow> jobj \<Rightarrow> json option" where
  "location_of env entity =
     (case map_of entity ''metadata'' of
        Some (JObj metadata) \<Rightarrow>
          (case map_of metadata ''annotations'' of
             Some (JObj annotations) \<Rightarrow> map_of annotations (ANNOTATION_LOCATION env)
           | _ \<Rightarrow> None)
      | _ \<Rightarrow> None)"

definition warn_errors :: "collaborators \<Rightarrow> item \<Rightarrow> processing_result \<Rightarrow> unit step" where
  "warn_errors env it result =
     emit (map (\<lambda>e. LoggerWarn (err_message e) (entityRef it)
                       (location_of env (unprocessedEntity it))) (errors result))"

definition errorsString :: "collaborators \<Rightarrow> processing_result \<Rightarrow> string" where
  "errorsString env result = JSON_stringify (JArr (map (serializeError env) (errors result)))"

text \<open>The chunks that the hash builder is updated with, in order.\<close>

definition hash_chunks :: "collaborators \<Rightarrow> processing_result \<Rightarrow> string list \<Rightarrow> string list" where
  "hash_chunks env result parents =
     (if ok result then
        [errorsString env result,
         stableStringify (JObj (completedEntity result)),
         stableStringify (JArr (deferredEntities result)),
         stableStringify (JArr (map json_of_relation (relations result))),
         stableStringify (JArr (refreshKeys result)),
         stableStringify (JArr (map JStr parents))]
      else [errorsString env result])"

definition hash_step :: "collaborators \<Rightarrow> item \<Rightarrow> processing_result \<Rightarrow> string step" where
  "hash_step env it result =
     (if ok result then
        and_then (call_value (CallListParents (entityRef it)) (listParents env (entityRef it)))
          (\<lambda>parents.
             (([HashDigest (hash_chunks env result parents)],
               Inr (hash_digest env (hash_chunks env result parents))) :: string step))
      else ([HashDigest (hash_chunks env result [])],
            Inr (hash_digest env (hash_chunks env result []))))"

text \<open>
  The error listener runs in a promise chain of its own,
  \<open>Promise.resolve(undefined).then(...).catch(...)\<close>, which the handler starts and does
  not wait for. The chain calls the listener, if there is one, and logs what the
  listener throws or rejects with (\<open>Some e\<close>). Its events are kept apart from the
  events of the handler: the code fixes no order between the two.
\<close>

definition observer_chain :: "collaborators \<Rightarrow> item \<Rightarrow> processing_result \<Rightarrow> event list" where
  "observer_chain env it result =
     (case onProcessingError env of
        None \<Rightarrow> []
      | Some listener \<Rightarrow>
          NotifyObserver (unprocessedEntity it) (errors result) #
          (case listener (unprocessedEntity it) (errors result) of
             None \<Rightarrow> []
           | Some e \<Rightarrow> [LoggerDebug e]))"

definition errors_step :: "collaborators \<Rightarrow> item \<Rightarrow> processing_result \<Rightarrow> string \<Rightarrow> unit step" where
  "errors_step env it result h =
     and_then (call (CallUpdateProcessedEntityErrors (item_id it) (errorsString env result) h)
                    (updateProcessedEntityErrors env (item_id it) (errorsString env result) h)) (\<lambda>_.
     and_then (call (CallStitch (new_Set [stringifyEntityRef env (JObj (unprocessedEntity it))]))
                    (stitch env (new_Set [stringifyEntityRef env (JObj (unprocessedEntity it))]))) (\<lambda>_.
     emit [MarkSuccessfulWithErrors]))"

text \<open>
  \<open>result.completedEntity.metadata.uid = id\<close>: a \<open>TypeError\<close> when there is no
  \<open>metadata\<close> to assign to; a property put on an array is not part of its JSON value.
\<close>

definition stamp_uid :: "jobj \<Rightarrow> string \<Rightarrow> thrown + jobj" where
  "stamp_uid entity uid =
     (case map_of entity ''metadata'' of
        Some (JObj metadata) \<Rightarrow>
          Inr (obj_set entity ''metadata'' (JObj (obj_set metadata ''uid'' (JStr uid))))
      | Some (JArr xs) \<Rightarrow> Inr entity
      | _ \<Rightarrow> Inl (ThrownError (Error ''TypeError'' ''Cannot set properties'')))"

definition oldRelationSources :: "db_relation list \<Rightarrow> string list" where
  "oldRelationSources previous = new_Set (map source_entity_ref previous)"

definition newRelationSources :: "collaborators \<Rightarrow> relation list \<Rightarrow> string list" where
  "newRelationSources env rels = new_Set (map (\<lambda>r. stringifyEntityRef env (source r)) rels)"

text \<open>The two \<open>forEach\<close> loops that fill \<open>setOfThingsToStitch\<close>.\<close>

definition setOfThingsToStitch :: "string \<Rightarrow> string list \<Rightarrow> string list \<Rightarrow> string list" where
  "setOfThingsToStitch self new old =
     foldl (\<lambda>acc r. if r \<notin> set new then set_add acc r else acc)
       (foldl (\<lambda>acc r. if r \<notin> set old then set_add acc r else acc) (new_Set [self]) new)
       old"

text \<open>The options of the \<open>updateProcessedEntity\<close> call, and the set handed to the stitcher.\<close>

definition processed_options ::
  "collaborators \<Rightarrow> item \<Rightarrow> processing_result \<Rightarrow> jobj \<Rightarrow> string \<Rightarrow> update_options" where
  "processed_options env it result entity h =
     \<lparr>upd_id = item_id it, upd_processedEntity = entity, upd_resultHash = h,
      upd_errors = errorsString env result, upd_relations = relations result,
      upd_deferredEntities = deferredEntities result,
      upd_locationKey = locationKey it, upd_refreshKeys = refreshKeys result\<rparr>"

definition stitch_refs ::
  "collaborators \<Rightarrow> processing_result \<Rightarrow> jobj \<Rightarrow> db_relation list \<Rightarrow> string list" where
  "stitch_refs env result entity previous =
     setOfThingsToStitch (stringifyEntityRef env (JObj entity))
       (newRelationSources env (relations result)) (oldRelationSources previous)"

definition update_step :: "collaborators \<Rightarrow> item \<Rightarrow> processing_result \<Rightarrow> string \<Rightarrow> unit step" where
  "update_step env it result h =
     and_then (([], stamp_uid (completedEntity result) (item_id it)) :: jobj step) (\<lambda>entity.
     and_then (call_value (CallUpdateProcessedEntity (processed_options env it result entity h))
                 (updateProcessedEntity env (processed_options env it result entity h)))
       (\<lambda>previous.
     and_then (call (CallStitch (stitch_refs env result entity previous))
                    (stitch env (stitch_refs env result entity previous)))
       (\<lambda>_.
     emit [MarkSuccessfulWithChanges (length (stitch_refs env result entity previous))])))"

text \<open>
  The handler up to the digest: the orchestrator, the cache bookkeeping, the warnings
  and the hash. It yields the result and the computed \<open>resultHash\<close>.
\<close>

definition hashed_result :: "collaborators \<Rightarrow> item \<Rightarrow> (processing_result \<times> string) step" where
  "hashed_result env it =
     and_then (call_value (CallProcess (unprocessedEntity it) (state it))
                          (orchestrator_process env (unprocessedEntity it) (state it))) (\<lambda>result.
     and_then (emit [MarkProcessorsCompleted (ok result)]) (\<lambda>_.
     and_then (cache_step env it result) (\<lambda>_.
     and_then (warn_errors env it result) (\<lambda>_.
     and_then (hash_step env it result) (\<lambda>h.
     returns (result, h))))))"

text \<open>The body of the \<open>try\<close> block.\<close>

definition try_body :: "collaborators \<Rightarrow> item \<Rightarrow> unit step" where
  "try_body env it =
     and_then (hashed_result env it) (\<lambda>rh.
       if snd rh = resultHash it then emit [MarkSuccessfulWithNoChanges]
       else if \<not> ok (fst rh) then errors_step env it (fst rh) (snd rh)
       else update_step env it (fst rh) (snd rh))"

text \<open>
  The listener's chain is started in the branch for a result that is not \<open>ok\<close>, which
  the handler enters when the hash differs from the previous one, before the errors
  are stored.
\<close>

definition detached_chain :: "collaborators \<Rightarrow> item \<Rightarrow> event list" where
  "detached_chain env it =
     (case snd (hashed_result env it) of
        Inl e \<Rightarrow> []
      | Inr rh \<Rightarrow>
          (if snd rh \<noteq> resultHash it \<and> \<not> ok (fst rh)
           then observer_chain env it (fst rh) else []))"

text \<open>
  What a run of the handler leaves behind: its events in order, the value its promise
  rejects with, if it does, and the events of the listener's chain.
\<close>

record outcome =
  events :: "event list"
  rejected :: "thrown option"
  detached :: "event list"

text \<open>
  \<open>processTask\<close>: the tracker is started, the body runs, and the \<open>catch\<close> clause calls
  \<open>assertError\<close> on what was thrown before it marks the item failed.
\<close>

definition processTask :: "collaborators \<Rightarrow> item \<Rightarrow> outcome" where
  "processTask env it =
     (case snd (try_body env it) of
        Inr _ \<Rightarrow>
          \<lparr>events = ProcessStart (entityRef it) # fst (try_body env it), rejected = None,
           detached = detached_chain env it\<rparr>
      | Inl e \<Rightarrow>
          (case assertError env e of
             Some e' \<Rightarrow>
               \<lparr>events = ProcessStart (entityRef it) # fst (try_body env it), rejected = Some e',
                detached = detached_chain env it\<rparr>
           | None \<Rightarrow>
               \<lparr>events = ProcessStart (entityRef it) # fst (try_body env it) @ [MarkFailed e],
                rejected = None, detached = detached_chain env it\<rparr>))"

text \<open>
  The progress tracker counts every finished item under one label of the counter
  \<open>catalog_processed_entities_count\<close>.
\<close>

fun processed_label :: "event \<Rightarrow> string option" where
  "processed_label MarkSuccessfulWithNoChanges = Some ''unchanged''"
| "processed_label MarkSuccessfulWithErrors = Some ''errors''"
| "processed_label (MarkSuccessfulWithChanges n) = Some ''changed''"
| "processed_label (MarkFailed e) = Some ''failed''"
| "processed_label _ = None"

definition tracker_outcomes :: "event list \<Rightarrow> string list" where
  "tracker_outcomes evs = List.map_filter processed_label evs"

fun is_updateEntityCache :: "event \<Rightarrow> bool" where
  "is_updateEntityCache (CallUpdateEntityCache i st) = True"
| "is_updateEntityCache _ = False"

fun is_store_write :: "event \<Rightarrow> bool" where
  "is_store_write (CallUpdateEntityCache i st) = True"
| "is_store_write (CallUpdateProcessedEntityErrors i es h) = True"
| "is_store_write (CallUpdateProcessedEntity opts) = True"
| "is_store_write _ = False"

fun is_result_write :: "event \<Rightarrow> bool" where
  "is_result_write (CallUpdateProcessedEntityErrors i es h) = True"
| "is_result_write (CallUpdateProcessedEntity opts) = True"
| "is_result_write _ = False"

fun is_stitch :: "event \<Rightarrow> bool" where
  "is_stitch (CallStitch refs) = True"
| "is_stitch _ = False"

section \<open>The loader and the life cycle\<close>

text \<open>\<open>loadTasks\<close> as \<open>start\<close> wires it: the \<open>catch\<close> clause logs and returns no items.\<close>

definition loadTasks :: "collaborators \<Rightarrow> nat \<Rightarrow> item list step" where
  "loadTasks env batch =
     (case getProcessableEntities env batch of
        Inr items \<Rightarrow> ([CallGetProcessableEntities batch], Inr items)
      | Inl e \<Rightarrow> ([CallGetProcessableEntities batch, LoggerWarnLoad e], Inr []))"

text \<open>
  The engine holds \<open>stopFunc\<close>, the handle of its running pipeline if there is one. The
  pipelines themselves live outside the engine: the ones that run, and the next handle.
\<close>

record engine =
  stopFunc :: "nat option"
  running :: "nat list"
  next_handle :: nat

text \<open>
  Modelled from the spec: \<open>startTaskPipeline\<close> of the module TaskPipeline, which is not
  among the sources. It begins a scheduling loop and returns a stop handle; calling the
  handle halts further polling and dispatch.
\<close>

definition startTaskPipeline :: "engine \<Rightarrow> engine \<times> nat" where
  "startTaskPipeline eng =
     (eng\<lparr>running := next_handle eng # running eng, next_handle := Suc (next_handle eng)\<rparr>,
      next_handle eng)"

definition call_stopFunc :: "nat \<Rightarrow> engine \<Rightarrow> engine" where
  "call_stopFunc h eng = eng\<lparr>running := removeAll h (running eng)\<rparr>"

text \<open>
  What a call of a method does: it throws before it returns, or it returns a promise
  that is rejected or resolved. \<open>start\<close> is an \<open>async\<close> method, so whatever its body
  throws rejects its promise. \<open>stop\<close> has nothing that throws: \<open>stop eng\<close> is the engine
  after its promise has resolved.
\<close>

datatype 'a completion = ThrowsSync thrown | Rejects thrown | Resolves 'a

definition start_body :: "engine \<Rightarrow> thrown + engine" where
  "start_body eng =
     (if stopFunc eng \<noteq> None
      then Inl (ThrownError (Error ''Error'' ''Processing engine is already started''))
      else Inr ((fst (startTaskPipeline eng))\<lparr>stopFunc := Some (snd (startTaskPipeline eng))\<rparr>))"

definition start :: "engine \<Rightarrow> engine completion" where
  "start eng = (case start_body eng of Inl e \<Rightarrow> Rejects e | Inr eng' \<Rightarrow> Resolves eng')"

definition stop :: "engine \<Rightarrow> engine" where
  "stop eng =
     (case stopFunc eng of
        Some h \<Rightarrow> (call_stopFunc h eng)\<lparr>stopFunc := None\<rparr>
      | None \<Rightarrow> eng)"


section \<open>Notions that the claims speak of\<close>

text \<open>
  Modelled from the spec: the store's \<open>updateEntityCache\<close>, whose source is not among
  the files, overwrites the cache state of an item; the next run of the item starts from
  the state the last run wrote. \<open>after_failures n st\<close> is the state of an item after \<open>n\<close>
  runs in a row whose result was not \<open>ok\<close>.
\<close>

fun after_failures :: "nat \<Rightarrow> jobj option \<Rightarrow> jobj option" where
  "after_failures 0 st = st"
| "after_failures (Suc n) st = Some (decayed_state (after_failures n st))"

text \<open>The previous state and the new one are the same up to the order of keys.\<close>

definition same_state :: "jobj option \<Rightarrow> jobj \<Rightarrow> bool" where
  "same_state st rs = (case st of None \<Rightarrow> False | Some obj \<Rightarrow> json_equiv (JObj obj) (JObj rs))"



section \<open>Sample collaborators and items\<close>

text \<open>
  Concrete collaborators for the runs below: a store and a stitcher that never throw,
  an orchestrator with a fixed answer, the previous relations that the store returns,
  the concatenation of the chunks for a digest, and an \<open>assertError\<close> that lets
  \<open>Error\<close> objects pass and throws on every other value.
\<close>

definition sample_ref :: "json \<Rightarrow> string" where
  "sample_ref j =
     (case j of
        JObj kvs \<Rightarrow>
          (case map_of kvs ''metadata'' of
             Some (JObj metadata) \<Rightarrow>
               (case map_of metadata ''name'' of Some (JStr n) \<Rightarrow> n | _ \<Rightarrow> [])
           | _ \<Rightarrow> (case map_of kvs ''name'' of Some (JStr n) \<Rightarrow> n | _ \<Rightarrow> []))
      | _ \<Rightarrow> [])"

definition sample_assertError :: "thrown \<Rightarrow> thrown option" where
  "sample_assertError v =
     (case v of
        ThrownError e \<Rightarrow> None
      | ThrownValue j \<Rightarrow> Some (ThrownError (Error ''Error'' ''Encountered invalid error'')))"

definition sample_env :: "thrown + processing_result \<Rightarrow> db_relation list \<Rightarrow> collaborators" where
  "sample_env answer previous =
     \<lparr>orchestrator_process = (\<lambda>entity st. answer),
      updateEntityCache = (\<lambda>i st. None),
      listParents = (\<lambda>r. Inr []),
      updateProcessedEntityErrors = (\<lambda>i es h. None),
      updateProcessedEntity = (\<lambda>opts. Inr previous),
      getProcessableEntities = (\<lambda>n. Inr []),
      stitch = (\<lambda>refs. None),
      hash_digest = concat,
      onProcessingError = None,
      serializeError = (\<lambda>e. JObj [(''name'', JStr (err_name e)), (''message'', JStr (err_message e))]),
      stringifyEntityRef = sample_ref,
      assertError = sample_assertError,
      ANNOTATION_LOCATION = ''backstage.io/managed-by-location''\<rparr>"

definition entity_named :: "string \<Rightarrow> jobj" where
  "entity_named n = [(''kind'', JStr ''Component''), (''metadata'', JObj [(''name'', JStr n)])]"

definition ref_named :: "string \<Rightarrow> json" where
  "ref_named n = JObj [(''kind'', JStr ''Component''), (''namespace'', JStr ''default''), (''name'', JStr n)]"

definition sample_item :: "jobj option \<Rightarrow> string \<Rightarrow> item" where
  "sample_item st h =
     \<lparr>item_id = ''id-1'', state = st, unprocessedEntity = entity_named ''a'',
      entityRef = ''a'', locationKey = None, resultHash = h\<rparr>"

definition sample_failure :: processing_result where
  "sample_failure = ResultFailed [Error ''InputError'' ''bad'']"

definition sample_success :: "jobj \<Rightarrow> relation list \<Rightarrow> processing_result" where
  "sample_success st rels = ResultOk st (entity_named ''a'') [] rels [] []"

definition row_from :: "string \<Rightarrow> string \<Rightarrow> db_relation" where
  "row_from src tgt =
     \<lparr>originating_entity_id = ''id-1'', source_entity_ref = src, target_entity_ref = tgt,
      relation_type = ''dependsOn''\<rparr>"

definition failing_env :: collaborators where
  "failing_env = sample_env (Inr sample_failure) []"

definition unchanged_failure_item :: item where
  "unchanged_failure_item =
     sample_item (Some [(''ttl'', JNum 2)]) (hash_digest failing_env (hash_chunks failing_env sample_failure []))"

text \<open>The failing run with an error listener that throws.\<close>

definition noisy_env :: collaborators where
  "noisy_env =
     failing_env\<lparr>onProcessingError :=
                   Some (\<lambda>entity es. Some (ThrownValue (JStr ''listener down'')))\<rparr>"

definition stateless_unchanged_item :: item where
  "stateless_unchanged_item =
     sample_item None (hash_digest failing_env (hash_chunks failing_env sample_failure []))"

definition throwing_env :: "thrown \<Rightarrow> collaborators" where
  "throwing_env v = sample_env (Inl v) []"

text \<open>
  Entity \<open>a\<close> with the stored relations \<open>a \<rightarrow> x\<close> and \<open>a \<rightarrow> y\<close> and the new relations
  \<open>a \<rightarrow> y\<close> and \<open>a \<rightarrow> z\<close>: source \<open>a\<close> throughout.
\<close>

definition outbound_env :: collaborators where
  "outbound_env =
     sample_env
       (Inr (sample_success []
          [EntityRelationSpec (ref_named ''a'') ''dependsOn'' (ref_named ''y''),
           EntityRelationSpec (ref_named ''a'') ''dependsOn'' (ref_named ''z'')]))
       [row_from ''a'' ''x'', row_from ''a'' ''y'']"

text \<open>
  Entity \<open>a\<close> with the stored relations \<open>x \<rightarrow> a\<close> and \<open>y \<rightarrow> a\<close> and the new relations
  \<open>y \<rightarrow> a\<close> and \<open>z \<rightarrow> a\<close>: sources \<open>x, y\<close> before and \<open>y, z\<close> after.
\<close>

definition inbound_result :: processing_result where
  "inbound_result =
     sample_success []
       [EntityRelationSpec (ref_named ''y'') ''dependencyOf'' (ref_named ''a''),
        EntityRelationSpec (ref_named ''z'') ''dependencyOf'' (ref_named ''a'')]"

definition inbound_env :: collaborators where
  "inbound_env = sample_env (Inr inbound_result) [row_from ''x'' ''a'', row_from ''y'' ''a'']"

text \<open>
  An orchestrator that answers an item without state with one entity, and an item with
  state with the same entity whose keys come in the other order (and another state).
\<close>

definition plain_result :: processing_result where
  "plain_result =
     ResultOk [] [(''kind'', JStr ''Component''), (''metadata'', JObj [(''name'', JStr ''a'')])]
       [] [] [] []"

definition reordered_result :: processing_result where
  "reordered_result =
     ResultOk [(''seen'', JBool True)]
       [(''metadata'', JObj [(''name'', JStr ''a'')]), (''kind'', JStr ''Component'')]
       [] [] [] []"

definition reordering_env :: collaborators where
  "reordering_env =
     (sample_env (Inr plain_result) [])
       \<lparr>orchestrator_process :=
          (\<lambda>entity st. if st = None then Inr plain_result else Inr reordered_result)\<rparr>"

section \<open>Facts about the serialisations\<close>

lemma of_char_digit_char: "d < 10 \<Longrightarrow> (of_char (digit_char d) :: nat) = 48 + d"
  by (simp add: digit_char_def)

lemma is_digit_digit_char: "d < 10 \<Longrightarrow> is_digit (digit_char d)"
  by (simp add: is_digit_def of_char_digit_char)

lemma digits_all_digits: "c \<in> set (digits n) \<Longrightarrow> is_digit c"
proof (induction n rule: digits.induct)
  case (1 n)
  then show ?case
    by (subst (asm) digits.simps) (auto simp: is_digit_digit_char split: if_splits)
qed

lemma digits_not_Nil [simp]: "digits n \<noteq> []"
  by (subst digits.simps) simp

lemma digit_value_snoc: "digit_value (s @ [c]) = 10 * digit_value s + (of_char c - 48)"
  by (simp add: digit_value_def)

lemma digit_value_digits: "digit_value (digits n) = n"
proof (induction n rule: digits.induct)
  case (1 n)
  show ?case
  proof (cases "n < 10")
    case True
    then show ?thesis
      by (subst digits.simps) (simp add: digit_value_def of_char_digit_char)
  next
    case False
    then have "digit_value (digits n) = 10 * digit_value (digits (n div 10)) + (n mod 10)"
      by (subst digits.simps) (simp add: digit_value_snoc of_char_digit_char)
    with False 1 show ?thesis by simp
  qed
qed

lemma digits_inj: "digits n = digits m \<Longrightarrow> n = m"
  by (metis digit_value_digits)

lemma run_delimited:
  assumes "xs @ r = ys @ r'"
    and "\<forall>c \<in> set xs. P c" and "\<forall>c \<in> set ys. P c"
    and "r = [] \<or> \<not> P (hd r)" and "r' = [] \<or> \<not> P (hd r')"
  shows "xs = ys \<and> r = r'"
  using assms
proof (induction xs arbitrary: ys)
  case Nil
  then show ?case by (cases ys) auto
next
  case (Cons x xs)
  then show ?case by (cases ys) auto
qed

lemma minus_not_digit: "\<not> is_digit CHR ''-''"
  by (simp add: is_digit_def)

lemma hd_digits_digit: "is_digit (hd (digits n))"
  using digits_all_digits [of "hd (digits n)" n] by simp

lemma string_of_int_inj:
  assumes "string_of_int n @ r = string_of_int m @ r'"
    and "r = [] \<or> \<not> is_digit (hd r)" and "r' = [] \<or> \<not> is_digit (hd r')"
  shows "n = m \<and> r = r'"
proof -
  have neg_pos: False
    if "CHR ''-'' # digits a @ s = digits b @ s'" for a b s s'
  proof -
    from that have "hd (digits b @ s') = CHR ''-''" by (metis list.sel(1))
    then have "hd (digits b) = CHR ''-''" by simp
    with hd_digits_digit [of b] minus_not_digit show False by simp
  qed
  have same: "a = b \<and> r = r'" if "digits a @ r = digits b @ r'" for a b
    using run_delimited [OF that, of is_digit] assms(2,3) digits_all_digits digits_inj
    by blast
  show ?thesis
  proof (cases "n < 0")
    case True
    show ?thesis
    proof (cases "m < 0")
      case mneg: True
      with True assms(1) have "digits (nat (- n)) @ r = digits (nat (- m)) @ r'"
        by (simp add: string_of_int_def)
      from same [OF this] True mneg show ?thesis by auto
    next
      case False
      with True assms(1) neg_pos [of "nat (- n)" r "nat m" r'] show ?thesis
        by (simp add: string_of_int_def)
    qed
  next
    case False
    show ?thesis
    proof (cases "m < 0")
      case True
      with False assms(1) neg_pos [of "nat (- m)" r' "nat n" r] show ?thesis
        by (simp add: string_of_int_def)
    next
      case mpos: False
      with False assms(1) have "digits (nat n) @ r = digits (nat m) @ r'"
        by (simp add: string_of_int_def)
      from same [OF this] False mpos show ?thesis by auto
    qed
  qed
qed

lemma of_char_hex_char:
  "d < 16 \<Longrightarrow> (of_char (hex_char d) :: nat) = (if d < 10 then 48 + d else 87 + d)"
  by (simp add: hex_char_def)

lemma hex_char_inj:
  assumes "d < 16" and "d' < 16" and "hex_char d = hex_char d'"
  shows "d = d'"
proof -
  have "(of_char (hex_char d) :: nat) = of_char (hex_char d')"
    using assms(3) by simp
  with assms(1,2) show ?thesis
    by (simp add: of_char_hex_char split: if_splits)
qed

lemma of_char_split16: "(of_char c :: nat) = 16 * (of_char c div 16) + of_char c mod 16"
  by simp

lemma hex_escape_inj:
  assumes "(of_char c :: nat) < 32" and "(of_char c' :: nat) < 32"
    and "hex_char (of_char c div 16) = hex_char (of_char c' div 16)"
    and "hex_char (of_char c mod 16) = hex_char (of_char c' mod 16)"
  shows "c = c'"
proof -
  have "(of_char c :: nat) div 16 = of_char c' div 16"
    using assms(1,2,3) by (intro hex_char_inj) auto
  moreover have "(of_char c :: nat) mod 16 = of_char c' mod 16"
    using assms(4) by (intro hex_char_inj) auto
  ultimately have "(of_char c :: nat) = of_char c'"
    by (metis of_char_split16)
  then show ?thesis by simp
qed

lemma escape_char_cases:
  "(escape_char c = [c] \<and> c \<noteq> CHR 0x5C \<and> c \<noteq> CHR 0x22)
   \<or> (\<exists>d. escape_char c = [CHR 0x5C, d] \<and> d \<noteq> CHR ''u'')
   \<or> (escape_char c = [CHR 0x5C, CHR ''u'', CHR ''0'', CHR ''0'',
              hex_char (of_char c div 16), hex_char (of_char c mod 16)] \<and> (of_char c :: nat) < 32)"
  by (simp add: escape_char_def)

lemma escape_char_short_inj:
  "escape_char c = [CHR 0x5C, d] \<Longrightarrow> escape_char c' = [CHR 0x5C, d] \<Longrightarrow> c = c'"
  by (auto simp: escape_char_def split: if_splits)

lemma escape_char_inj:
  assumes "escape_char c @ x = escape_char c' @ y"
  shows "c = c' \<and> x = y"
proof -
  consider (plain) "escape_char c = [c]" "c \<noteq> CHR 0x5C" "c \<noteq> CHR 0x22"
    | (short) d where "escape_char c = [CHR 0x5C, d]" "d \<noteq> CHR ''u''"
    | (hex) "escape_char c = [CHR 0x5C, CHR ''u'', CHR ''0'', CHR ''0'',
              hex_char (of_char c div 16), hex_char (of_char c mod 16)]" "(of_char c :: nat) < 32"
    using escape_char_cases [of c] by blast
  then show ?thesis
  proof cases
    case plain
    with assms escape_char_cases [of c'] show ?thesis by auto
  next
    case short
    with assms escape_char_cases [of c'] escape_char_short_inj [of c d c'] show ?thesis by auto
  next
    case hex
    with assms escape_char_cases [of c'] hex_escape_inj [of c c'] show ?thesis by auto
  qed
qed

lemma escape_char_start: "\<exists>d ds. escape_char c = d # ds \<and> d \<noteq> CHR 0x22"
  using escape_char_cases [of c] by auto

lemma escaped_inj:
  "concat (map escape_char s) @ CHR 0x22 # r = concat (map escape_char s') @ CHR 0x22 # r'
   \<Longrightarrow> s = s' \<and> r = r'"
proof (induction s arbitrary: s')
  case Nil
  show ?case
  proof (cases s')
    case Nil
    with Nil.prems show ?thesis by simp
  next
    case (Cons c' t')
    with Nil.prems escape_char_start [of c'] show ?thesis by auto
  qed
next
  case (Cons c t)
  show ?case
  proof (cases s')
    case Nil
    with Cons.prems escape_char_start [of c] show ?thesis by auto
  next
    case inner: (Cons c' t')
    with Cons.prems have "escape_char c @ (concat (map escape_char t) @ CHR 0x22 # r)
        = escape_char c' @ (concat (map escape_char t') @ CHR 0x22 # r')"
      by simp
    from escape_char_inj [OF this] Cons.IH [of t'] inner show ?thesis by simp
  qed
qed

lemma quote_inj: "quote s @ r = quote s' @ r' \<Longrightarrow> s = s' \<and> r = r'"
  using escaped_inj [of s r s' r'] by (simp add: quote_def)

lemma delimited_not_digit: "delimited r \<Longrightarrow> r = [] \<or> \<not> is_digit (hd r)"
  by (auto simp: delimited_def is_digit_def)

lemma delimited_simps [simp]:
  "delimited (CHR '','' # r)" "delimited (CHR '']'' # r)" "delimited (CHR ''}'' # r)"
  by (simp_all add: delimited_def)

lemma first_tag_digit: "is_digit c \<Longrightarrow> first_tag c = 2"
  by (auto simp: first_tag_def is_digit_def)

lemma string_of_int_start:
  "\<exists>c cs. string_of_int n = c # cs \<and> first_tag c = 2 \<and> c \<noteq> CHR '']'' \<and> c \<noteq> CHR ''}''"
proof (cases "n < 0")
  case True
  then show ?thesis by (simp add: string_of_int_def first_tag_def)
next
  case False
  obtain c cs where "digits (nat n) = c # cs" by (cases "digits (nat n)") auto
  moreover from this have "is_digit c" using hd_digits_digit [of "nat n"] by simp
  moreover from this have "c \<noteq> CHR '']'' \<and> c \<noteq> CHR ''}''" by (auto simp: is_digit_def)
  ultimately show ?thesis using False by (simp add: string_of_int_def first_tag_digit)
qed

lemma JSON_stringify_start:
  "\<exists>c cs. JSON_stringify a = c # cs \<and> first_tag c = tag a \<and> c \<noteq> CHR '']'' \<and> c \<noteq> CHR ''}''"
proof (cases a)
  case (JNum n)
  then show ?thesis using string_of_int_start [of n] by simp
qed (simp_all add: first_tag_def quote_def)

lemma JSON_stringify_tag:
  assumes "JSON_stringify a @ r = JSON_stringify b @ r'"
  shows "tag a = tag b"
proof -
  obtain c cs where a: "JSON_stringify a = c # cs" "first_tag c = tag a"
    using JSON_stringify_start by blast
  obtain d ds where b: "JSON_stringify b = d # ds" "first_tag d = tag b"
    using JSON_stringify_start by blast
  from assms a(1) b(1) have "c = d" by simp
  with a(2) b(2) show ?thesis by simp
qed

lemma commas_Cons: "commas (z # zs) = z @ (if zs = [] then [] else CHR '','' # commas zs)"
  by (cases zs) simp_all

lemma commas_closed_inj:
  assumes elem: "\<And>x y s s'. x \<in> set xs \<Longrightarrow> f x @ s = f y @ s' \<Longrightarrow> delimited s \<Longrightarrow> delimited s'
                  \<Longrightarrow> x = y \<and> s = s'"
    and start: "\<And>y. \<exists>d ds. f y = d # ds \<and> d \<noteq> c"
    and close: "c = CHR '']'' \<or> c = CHR ''}''"
    and eq: "commas (map f xs) @ c # r = commas (map f ys) @ c # r'"
  shows "xs = ys \<and> r = r'"
  using elem eq
proof (induction xs arbitrary: ys)
  case Nil
  show ?case
  proof (cases ys)
    case Nil
    with Nil.prems show ?thesis by simp
  next
    case (Cons y ys')
    with Nil.prems(2) start [of y] show ?thesis by (auto simp: commas_Cons)
  qed
next
  case (Cons x xs')
  show ?case
  proof (cases ys)
    case Nil
    with Cons.prems(2) start [of x] show ?thesis by (auto simp: commas_Cons)
  next
    case ys: (Cons y ys')
    let ?tx = "(if xs' = [] then [] else CHR '','' # commas (map f xs')) @ c # r"
    let ?ty = "(if ys' = [] then [] else CHR '','' # commas (map f ys')) @ c # r'"
    have "f x @ ?tx = f y @ ?ty"
      using Cons.prems(2) ys by (simp add: commas_Cons)
    moreover have "delimited ?tx" "delimited ?ty"
      using close by auto
    ultimately have xy: "x = y" and tails: "?tx = ?ty"
      using Cons.prems(1) [of x ?tx y ?ty] by simp_all
    have "xs' = ys' \<and> r = r'"
    proof (cases "xs' = []")
      case True
      with tails close show ?thesis by (cases "ys' = []") auto
    next
      case False
      with tails close have ne: "ys' \<noteq> []" by (cases "ys' = []") auto
      with False tails have rest: "commas (map f xs') @ c # r = commas (map f ys') @ c # r'" by simp
      have inner: "u = v \<and> s = s'"
        if "u \<in> set xs'" and "f u @ s = f v @ s'" and "delimited s" and "delimited s'" for u v s s'
        using Cons.prems(1) [of u s v s'] that by simp
      from Cons.IH [OF inner rest] show ?thesis .
    qed
    with xy ys show ?thesis by simp
  qed
qed

lemma JSON_stringify_delimited_inj:
  "JSON_stringify a @ r = JSON_stringify b @ r' \<Longrightarrow> delimited r \<Longrightarrow> delimited r'
     \<Longrightarrow> a = b \<and> r = r'"
proof (induction a arbitrary: b r r')
  case JNull
  from JSON_stringify_tag [OF JNull.prems(1)] JNull.prems(1) show ?case by (cases b) simp_all
next
  case (JBool x)
  from JSON_stringify_tag [OF JBool.prems(1)] JBool.prems(1) show ?case
    by (cases b) (auto split: if_splits)
next
  case (JNum n)
  from JSON_stringify_tag [OF JNum.prems(1)] obtain m where b: "b = JNum m" by (cases b) simp_all
  with JNum.prems string_of_int_inj [of n r m r'] show ?case
    by (simp add: delimited_not_digit)
next
  case (JStr s)
  from JSON_stringify_tag [OF JStr.prems(1)] obtain s' where b: "b = JStr s'" by (cases b) simp_all
  with JStr.prems(1) quote_inj [of s r s' r'] show ?case by simp
next
  case (JArr xs)
  from JSON_stringify_tag [OF JArr.prems(1)] obtain ys where b: "b = JArr ys" by (cases b) simp_all
  have start: "\<exists>d ds. JSON_stringify y = d # ds \<and> d \<noteq> CHR '']''" for y
    using JSON_stringify_start [of y] by auto
  have "commas (map JSON_stringify xs) @ CHR '']'' # r = commas (map JSON_stringify ys) @ CHR '']'' # r'"
    using JArr.prems(1) b by simp
  from commas_closed_inj [of xs JSON_stringify "CHR '']''", OF JArr.IH start _ this] b
  show ?case by simp
next
  case (JObj kvs)
  from JSON_stringify_tag [OF JObj.prems(1)] obtain kvs' where b: "b = JObj kvs'" by (cases b) simp_all
  let ?f = "\<lambda>kv. quote (fst kv) @ CHR '':'' # JSON_stringify (snd kv)"
  have start: "\<exists>d ds. ?f y = d # ds \<and> d \<noteq> CHR ''}''" for y
    by (simp add: quote_def)
  have elem: "x = y \<and> s = s'"
    if "x \<in> set kvs" and "?f x @ s = ?f y @ s'" and "delimited s" and "delimited s'" for x y s s'
  proof -
    from that(2) have "quote (fst x) @ (CHR '':'' # JSON_stringify (snd x) @ s)
        = quote (fst y) @ (CHR '':'' # JSON_stringify (snd y) @ s')" by simp
    from quote_inj [OF this] have k: "fst x = fst y"
      and v: "JSON_stringify (snd x) @ s = JSON_stringify (snd y) @ s'" by simp_all
    have "snd x \<in> Basic_BNFs.snds x" by (cases x) simp
    from JObj.IH [OF that(1) this v that(3,4)] k show ?thesis by (simp add: prod_eq_iff)
  qed
  have "commas (map ?f kvs) @ CHR ''}'' # r = commas (map ?f kvs') @ CHR ''}'' # r'"
    using JObj.prems(1) b by simp
  from commas_closed_inj [of kvs ?f "CHR ''}''", OF elem start _ this] b
  show ?case by simp
qed

lemma JSON_stringify_inj: "JSON_stringify a = JSON_stringify b \<Longrightarrow> a = b"
  using JSON_stringify_delimited_inj [of a "[]" b "[]"] by (simp add: delimited_def)

lemma insort_key_map:
  "(\<And>x. f (g x) = f x) \<Longrightarrow> insort_key f (g x) (map g ys) = map g (insort_key f x ys)"
  by (induction ys) simp_all

lemma sort_key_map:
  "(\<And>x. f (g x) = f x) \<Longrightarrow> sort_key f (map g xs) = map g (sort_key f xs)"
  by (induction xs) (simp_all add: insort_key_map)

lemma stableStringify_normalize: "stableStringify j = JSON_stringify (canonical j)"
proof (induction j rule: stableStringify.induct)
  case (5 xs)
  then show ?case by (simp add: comp_def cong: map_cong)
next
  case (6 kvs)
  have "map (\<lambda>kv. quote (fst kv) @ CHR '':'' # stableStringify (snd kv)) (sort_key fst kvs)
      = map (\<lambda>kv. quote (fst kv) @ CHR '':'' # JSON_stringify (canonical (snd kv))) (sort_key fst kvs)"
    using 6 by (intro map_cong) simp_all
  moreover have "sort_key fst (map (\<lambda>kv. (fst kv, canonical (snd kv))) kvs)
      = map (\<lambda>kv. (fst kv, canonical (snd kv))) (sort_key fst kvs)"
    by (rule sort_key_map) simp
  ultimately show ?case
    by (simp only: stableStringify.simps canonical.simps JSON_stringify.simps list.map_comp
          comp_def fst_conv snd_conv)
qed simp_all

lemma stableStringify_eq_iff: "stableStringify a = stableStringify b \<longleftrightarrow> json_equiv a b"
  by (auto simp: stableStringify_normalize json_equiv_def dest: JSON_stringify_inj)

lemma filter_eq_single: "distinct zs \<Longrightarrow> k \<in> set zs \<Longrightarrow> filter (\<lambda>x. x = k) zs = [k]"
  by (induction zs) (auto simp: filter_empty_conv)

lemma sort_key_permutation:
  assumes "mset xs = mset ys" and "distinct (map f xs)"
  shows "sort_key f xs = sort_key f ys"
proof (rule properties_for_sort_key)
  show "mset (sort_key f ys) = mset xs" using assms(1) by simp
  show "sorted (map f (sort_key f ys))" by simp
  fix k assume "k \<in> set (sort_key f ys)"
  then have k: "k \<in> set xs" using assms(1) by (metis mset_eq_setD set_sort)
  have inj: "inj_on f (set xs)" using assms(2) by (simp add: distinct_map)
  have dx: "distinct xs" using assms(2) by (simp add: distinct_map)
  then have dy: "distinct (sort_key f ys)"
    using assms(1) by (metis distinct_sort mset_eq_imp_distinct_iff)
  have sx: "set (sort_key f ys) = set xs" using assms(1) by (metis mset_eq_setD set_sort)
  have "filter (\<lambda>x. f k = f x) xs = filter (\<lambda>x. x = k) xs"
    using inj k by (intro filter_cong) (auto dest: inj_onD)
  moreover have "filter (\<lambda>x. f k = f x) (sort_key f ys) = filter (\<lambda>x. x = k) (sort_key f ys)"
    using inj k sx by (intro filter_cong) (auto dest: inj_onD)
  moreover have "filter (\<lambda>x. x = k) xs = [k]"
    using dx k by (rule filter_eq_single)
  moreover have "filter (\<lambda>x. x = k) (sort_key f ys) = [k]"
    using dy k sx by (intro filter_eq_single) simp_all
  ultimately show "filter (\<lambda>x. f k = f x) (sort_key f ys) = filter (\<lambda>x. f k = f x) xs" by simp
qed

lemma key_order_is_immaterial:
  assumes "distinct (map fst kvs)" and "mset kvs' = mset kvs"
  shows "json_equiv (JObj kvs') (JObj kvs)"
proof -
  let ?g = "\<lambda>kv. (fst kv, canonical (snd kv))"
  have "mset (map ?g kvs) = mset (map ?g kvs')" using assms(2) by simp
  moreover have "distinct (map fst (map ?g kvs))" using assms(1) by (simp add: comp_def)
  ultimately have "sort_key fst (map ?g kvs) = sort_key fst (map ?g kvs')"
    by (rule sort_key_permutation)
  then show ?thesis by (simp add: json_equiv_def)
qed

lemma json_equiv_refl [simp]: "json_equiv a a"
  by (simp add: json_equiv_def)

section \<open>Facts about steps\<close>

lemma and_then_Inl: "snd m = Inl e \<Longrightarrow> and_then m f = (fst m, Inl e)"
  by (simp add: and_then_def)

lemma and_then_Inr: "snd m = Inr x \<Longrightarrow> and_then m f = (fst m @ fst (f x), snd (f x))"
  by (simp add: and_then_def)

lemma and_then_pair_Inl [simp]: "and_then (evs, Inl e) f = (evs, Inl e)"
  by (simp add: and_then_def)

lemma and_then_pair_Inr [simp]: "and_then (evs, Inr x) f = (evs @ fst (f x), snd (f x))"
  by (simp add: and_then_def)

lemma and_then_emit [simp]: "and_then (emit evs) f = (evs @ fst (f ()), snd (f ()))"
  by (simp add: emit_def)

lemma and_then_returns [simp]: "and_then (returns x) f = f x"
  by (simp add: returns_def)

lemma and_then_call_None [simp]: "and_then (call ev None) f = (ev # fst (f ()), snd (f ()))"
  by (simp add: call_def)

lemma and_then_call_Some [simp]: "and_then (call ev (Some e)) f = ([ev], Inl e)"
  by (simp add: call_def)

lemma and_then_call_value [simp]: "and_then (call_value ev (Inr x)) f = (ev # fst (f x), snd (f x))"
  "and_then (call_value ev (Inl e)) f = ([ev], Inl e)"
  by (simp_all add: call_value_def)

lemma cache_step_events:
  "fst (cache_step env it result) =
     (if ok result then
        (if stableStringify_state (state it) \<noteq> Some (stableStringify (JObj (result_state result)))
         then [CallUpdateEntityCache (item_id it) (refreshed_state (result_state result))] else [])
      else [CallUpdateEntityCache (item_id it) (decayed_state (state it))])"
  by (simp add: cache_step_def call_def returns_def)

lemma hash_step_events_plain:
  "ev \<in> set (fst (hash_step env it result)) \<Longrightarrow> (\<exists>r. ev = CallListParents r) \<or> (\<exists>cs. ev = HashDigest cs)"
  by (cases "listParents env (entityRef it)") (auto simp: hash_step_def split: if_splits)

lemma warn_errors_events:
  "ev \<in> set (fst (warn_errors env it result)) \<Longrightarrow> \<exists>m r l. ev = LoggerWarn m r l"
  by (auto simp: warn_errors_def emit_def)

lemma warn_errors_snd [simp]: "snd (warn_errors env it result) = Inr ()"
  by (simp add: warn_errors_def emit_def)

lemma hashed_result_throw:
  "orchestrator_process env (unprocessedEntity it) (state it) = Inl e \<Longrightarrow>
   hashed_result env it = ([CallProcess (unprocessedEntity it) (state it)], Inl e)"
  by (simp add: hashed_result_def)

lemma hashed_result_answer:
  "orchestrator_process env (unprocessedEntity it) (state it) = Inr result \<Longrightarrow>
   hashed_result env it =
     (CallProcess (unprocessedEntity it) (state it) # MarkProcessorsCompleted (ok result) #
        fst (and_then (cache_step env it result) (\<lambda>_.
             and_then (warn_errors env it result) (\<lambda>_.
             and_then (hash_step env it result) (\<lambda>h. returns (result, h))))),
      snd (and_then (cache_step env it result) (\<lambda>_.
             and_then (warn_errors env it result) (\<lambda>_.
             and_then (hash_step env it result) (\<lambda>h. returns (result, h))))))"
  by (simp add: hashed_result_def)

lemma and_then_events:
  "ev \<in> set (fst (and_then m f)) \<Longrightarrow>
     ev \<in> set (fst m) \<or> (\<exists>x. snd m = Inr x \<and> ev \<in> set (fst (f x)))"
  by (cases "snd m") (auto simp: and_then_def)

lemma cache_step_event:
  "ev \<in> set (fst (cache_step env it result)) \<Longrightarrow> \<exists>i st. ev = CallUpdateEntityCache i st"
  by (auto simp: cache_step_events split: if_splits)

lemma hashed_result_event_kinds:
  assumes "ev \<in> set (fst (hashed_result env it))"
  shows "\<not> is_result_write ev \<and> \<not> is_stitch ev \<and> processed_label ev = None"
proof -
  from assms have
    "(\<exists>a b. ev = CallProcess a b) \<or> (\<exists>b. ev = MarkProcessorsCompleted b) \<or>
     (\<exists>i st. ev = CallUpdateEntityCache i st) \<or> (\<exists>m r l. ev = LoggerWarn m r l) \<or>
     (\<exists>r. ev = CallListParents r) \<or> (\<exists>cs. ev = HashDigest cs)"
    unfolding hashed_result_def
    by (auto dest!: and_then_events cache_step_event warn_errors_events hash_step_events_plain
             simp: call_value_def emit_def returns_def)
  then show ?thesis by auto
qed

lemma try_body_at_hash:
  "snd (hashed_result env it) = Inr (result, h) \<Longrightarrow>
   try_body env it =
     (fst (hashed_result env it) @
        fst (if h = resultHash it then emit [MarkSuccessfulWithNoChanges]
             else if \<not> ok result then errors_step env it result h
             else update_step env it result h),
      snd (if h = resultHash it then emit [MarkSuccessfulWithNoChanges]
           else if \<not> ok result then errors_step env it result h
           else update_step env it result h))"
  by (simp add: try_body_def and_then_Inr)

lemma try_body_before_hash:
  "snd (hashed_result env it) = Inl e \<Longrightarrow> try_body env it = (fst (hashed_result env it), Inl e)"
  by (simp add: try_body_def and_then_Inl)

lemma map_filter_none: "(\<And>x. x \<in> set xs \<Longrightarrow> f x = None) \<Longrightarrow> List.map_filter f xs = []"
  by (induction xs) (auto simp: List.map_filter_simps)

lemma map_filter_append: "List.map_filter f (xs @ ys) = List.map_filter f xs @ List.map_filter f ys"
  by (simp add: List.map_filter_def)

lemma hashed_result_labels: "List.map_filter processed_label (fst (hashed_result env it)) = []"
  by (rule map_filter_none) (simp add: hashed_result_event_kinds)

lemma hashed_result_failed:
  assumes "orchestrator_process env (unprocessedEntity it) (state it) = Inr result" and "\<not> ok result"
  shows "hashed_result env it =
     (case updateEntityCache env (item_id it) (decayed_state (state it)) of
        Some e \<Rightarrow>
          ([CallProcess (unprocessedEntity it) (state it), MarkProcessorsCompleted False,
            CallUpdateEntityCache (item_id it) (decayed_state (state it))], Inl e)
      | None \<Rightarrow>
          ([CallProcess (unprocessedEntity it) (state it), MarkProcessorsCompleted False,
            CallUpdateEntityCache (item_id it) (decayed_state (state it))]
           @ fst (warn_errors env it result) @ [HashDigest [errorsString env result]],
           Inr (result, hash_digest env [errorsString env result])))"
  using assms
  by (simp add: hashed_result_def cache_step_def hash_step_def hash_chunks_def warn_errors_def
        returns_def emit_def split: option.split)

lemma hashed_result_reaches:
  "snd (hashed_result env it) = Inr (result, h) \<longleftrightarrow>
     orchestrator_process env (unprocessedEntity it) (state it) = Inr result
     \<and> snd (cache_step env it result) = Inr ()
     \<and> (if ok result
        then \<exists>ps. listParents env (entityRef it) = Inr ps \<and> h = hash_digest env (hash_chunks env result ps)
        else h = hash_digest env (hash_chunks env result []))"
proof (cases "orchestrator_process env (unprocessedEntity it) (state it)")
  case (Inl e)
  then show ?thesis by (simp add: hashed_result_throw)
next
  case (Inr r)
  show ?thesis
  proof (cases "snd (cache_step env it r)")
    case (Inl e)
    with Inr show ?thesis by (auto simp: hashed_result_answer and_then_Inl)
  next
    case inr: (Inr u)
    show ?thesis
    proof (cases "listParents env (entityRef it)")
      case (Inl e)
      with Inr inr show ?thesis
        by (auto simp: hashed_result_answer and_then_Inr warn_errors_def hash_step_def returns_def)
    next
      case ps: (Inr ps)
      with Inr inr show ?thesis
        by (auto simp: hashed_result_answer and_then_Inr warn_errors_def hash_step_def returns_def)
    qed
  qed
qed

lemma processTask_detached: "detached (processTask env it) = detached_chain env it"
  by (simp add: processTask_def split: sum.split option.split)

lemma new_Set_single [simp]: "new_Set [x] = [x]"
  by (simp add: new_Set_def set_add_def)

lemma errors_step_unfold:
  "errors_step env it result h =
     (CallUpdateProcessedEntityErrors (item_id it) (errorsString env result) h #
        (case updateProcessedEntityErrors env (item_id it) (errorsString env result) h of
           Some e \<Rightarrow> []
         | None \<Rightarrow>
             CallStitch [stringifyEntityRef env (JObj (unprocessedEntity it))] #
             (case stitch env [stringifyEntityRef env (JObj (unprocessedEntity it))] of
                Some e \<Rightarrow> [] | None \<Rightarrow> [MarkSuccessfulWithErrors])),
      (case updateProcessedEntityErrors env (item_id it) (errorsString env result) h of
         Some e \<Rightarrow> Inl e
       | None \<Rightarrow>
           (case stitch env [stringifyEntityRef env (JObj (unprocessedEntity it))] of
              Some e \<Rightarrow> Inl e | None \<Rightarrow> Inr ())))"
  by (simp add: errors_step_def and_then_Inr emit_def split: option.split)

lemma failing_env_simps [simp]:
  "orchestrator_process failing_env e s = Inr sample_failure"
  "updateEntityCache failing_env i st = None"
  "updateProcessedEntityErrors failing_env i es h = None"
  "stitch failing_env refs = None"
  "onProcessingError failing_env = None"
  by (simp_all add: failing_env_def sample_env_def)

lemma processTask_events:
  "events (processTask env it) =
     ProcessStart (entityRef it) # fst (try_body env it) @
     (case snd (try_body env it) of
        Inr u \<Rightarrow> []
      | Inl e \<Rightarrow> (case assertError env e of None \<Rightarrow> [MarkFailed e] | Some e' \<Rightarrow> []))"
  by (simp add: processTask_def split: sum.split option.split)

lemma processTask_rejected:
  "rejected (processTask env it) =
     (case snd (try_body env it) of Inr u \<Rightarrow> None | Inl e \<Rightarrow> assertError env e)"
  by (simp add: processTask_def split: sum.split option.split)

lemma errors_step_no_cache_write:
  "ev \<in> set (fst (errors_step env it result h)) \<Longrightarrow> \<not> is_updateEntityCache ev"
  by (auto simp: errors_step_unfold split: option.splits)

lemma map_of_obj_set: "map_of (obj_set kvs k v) = (map_of kvs)(k \<mapsto> v)"
  by (induction kvs) (auto simp: fun_eq_iff)

lemma obj_set_not_Nil [simp]: "obj_set kvs k v \<noteq> []"
  by (cases kvs) auto

lemma obj_set_fresh: "k \<notin> fst ` set kvs \<Longrightarrow> obj_set kvs k v = kvs @ [(k, v)]"
  by (induction kvs) auto

lemma obj_spread_distinct:
  "distinct (map fst (base @ src)) \<Longrightarrow> obj_spread base src = base @ src"
proof (induction src arbitrary: base)
  case Nil
  then show ?case by (simp add: obj_spread_def)
next
  case (Cons kv src)
  have "obj_set base (fst kv) (snd kv) = base @ [kv]"
    using Cons.prems by (simp add: obj_set_fresh)
  moreover have "obj_spread (base @ [kv]) src = (base @ [kv]) @ src"
    using Cons.prems by (intro Cons.IH) simp
  ultimately show ?case by (simp add: obj_spread_def)
qed

lemma ttl_of_empty [simp]: "ttl_of (Some []) = 0" "ttl_of None = 0"
  by (simp_all add: ttl_of_def)

lemma js_minus_one_safe: "n \<le> 9007199254740992 \<Longrightarrow> js_minus_one n = n - 1"
  by (simp add: js_minus_one_def)

lemma js_minus_one_nonneg: "0 < n \<Longrightarrow> 0 \<le> js_minus_one n"
  by (simp add: js_minus_one_def) presburger

lemma ttl_of_member: "map_of obj ''ttl'' = Some (JNum n) \<Longrightarrow> ttl_of (Some obj) = n"
  by (simp add: ttl_of_def)

lemma decayed_state_expired: "ttl_of st \<le> 0 \<Longrightarrow> decayed_state st = []"
  by (simp add: decayed_state_def)

lemma decayed_state_live:
  "0 < ttl_of st \<Longrightarrow>
     map_of (decayed_state st) ''ttl'' = Some (JNum (js_minus_one (ttl_of st)))
     \<and> decayed_state st \<noteq> []"
  by (simp add: decayed_state_def map_of_obj_set)

lemma decayed_state_member:
  "map_of obj ''ttl'' = Some (JNum n) \<Longrightarrow> 0 < n \<Longrightarrow>
     decayed_state (Some obj) = obj_set (obj_spread [] obj) ''ttl'' (JNum (js_minus_one n))"
  by (simp add: decayed_state_def ttl_of_member)

lemma decayed_state_lookup:
  "map_of obj ''ttl'' = Some (JNum n) \<Longrightarrow> 0 < n \<Longrightarrow> distinct (map fst obj) \<Longrightarrow>
     map_of (decayed_state (Some obj)) = (map_of obj)(''ttl'' \<mapsto> JNum (js_minus_one n))"
  using obj_spread_distinct [of "[]" obj]
  by (simp add: decayed_state_member map_of_obj_set)

lemma written_ttl_nonneg:
  "map_of (decayed_state st) ''ttl'' = Some (JNum n) \<Longrightarrow> 0 \<le> n"
proof (cases "0 < ttl_of st")
  case True
  assume "map_of (decayed_state st) ''ttl'' = Some (JNum n)"
  with True decayed_state_live [of st] have "n = js_minus_one (ttl_of st)" by simp
  with True show ?thesis by (simp add: js_minus_one_nonneg)
next
  case False
  assume "map_of (decayed_state st) ''ttl'' = Some (JNum n)"
  with False show ?thesis by (simp add: decayed_state_expired)
qed

lemma no_integer_ttl:
  "st = None \<or> (\<exists>obj. st = Some obj \<and> \<not> (\<exists>n. map_of obj ''ttl'' = Some (JNum n))) \<Longrightarrow> ttl_of st = 0"
  by (auto simp: ttl_of_def split: option.splits json.splits)

lemma after_failures_countdown:
  "map_of obj ''ttl'' = Some (JNum n) \<Longrightarrow> n \<le> 9007199254740992 \<Longrightarrow> int k \<le> n \<Longrightarrow>
     \<exists>obj'. after_failures k (Some obj) = Some obj' \<and> map_of obj' ''ttl'' = Some (JNum (n - int k))"
proof (induction k)
  case 0
  then show ?case by simp
next
  case (Suc k)
  then obtain obj' where before: "after_failures k (Some obj) = Some obj'"
    and ttl: "map_of obj' ''ttl'' = Some (JNum (n - int k))" by auto
  from ttl have "ttl_of (Some obj') = n - int k" by (rule ttl_of_member)
  moreover from Suc.prems have "0 < n - int k" and "n - int k \<le> 9007199254740992" by simp_all
  ultimately have "map_of (decayed_state (Some obj')) ''ttl'' = Some (JNum (n - int k - 1))"
    using decayed_state_live [of "Some obj'"] by (simp add: js_minus_one_safe)
  with before show ?case by (simp add: algebra_simps)
qed

lemma after_failures_empty:
  "map_of obj ''ttl'' = Some (JNum n) \<Longrightarrow> 0 \<le> n \<Longrightarrow> n \<le> 9007199254740992 \<Longrightarrow> n < int k \<Longrightarrow>
     after_failures k (Some obj) = Some []"
proof (induction k)
  case 0
  then show ?case by simp
next
  case (Suc k)
  show ?case
  proof (cases "n < int k")
    case True
    with Suc show ?thesis by (simp add: decayed_state_expired)
  next
    case False
    with Suc.prems have "int k \<le> n" by simp
    from after_failures_countdown [OF Suc.prems(1,3) this]
    obtain obj' where before: "after_failures k (Some obj) = Some obj'"
      and ttl: "map_of obj' ''ttl'' = Some (JNum (n - int k))" by auto
    from ttl have "ttl_of (Some obj') = n - int k" by (rule ttl_of_member)
    with Suc.prems(4) have "ttl_of (Some obj') \<le> 0" by simp
    with before show ?thesis by (simp add: decayed_state_expired)
  qed
qed

lemma update_step_unfold:
  "update_step env it result h =
     (case stamp_uid (completedEntity result) (item_id it) of
        Inl e \<Rightarrow> ([], Inl e)
      | Inr entity \<Rightarrow>
          (case updateProcessedEntity env (processed_options env it result entity h) of
             Inl e \<Rightarrow> ([CallUpdateProcessedEntity (processed_options env it result entity h)], Inl e)
           | Inr previous \<Rightarrow>
               (case stitch env (stitch_refs env result entity previous) of
                  Some e \<Rightarrow>
                    ([CallUpdateProcessedEntity (processed_options env it result entity h),
                      CallStitch (stitch_refs env result entity previous)], Inl e)
                | None \<Rightarrow>
                    ([CallUpdateProcessedEntity (processed_options env it result entity h),
                      CallStitch (stitch_refs env result entity previous),
                      MarkSuccessfulWithChanges (length (stitch_refs env result entity previous))],
                     Inr ()))))"
  by (simp add: update_step_def emit_def split: sum.split option.split)

lemma thrown_body_labels:
  assumes "snd (try_body env it) = Inl e"
  shows "List.map_filter processed_label (fst (try_body env it)) = []"
proof (cases "snd (hashed_result env it)")
  case (Inl e')
  then show ?thesis by (simp add: try_body_before_hash hashed_result_labels)
next
  case (Inr rh)
  obtain result h where rh: "rh = (result, h)" by (cases rh)
  let ?last = "if h = resultHash it then emit [MarkSuccessfulWithNoChanges]
             else if \<not> ok result then errors_step env it result h
             else update_step env it result h"
  have body: "try_body env it = (fst (hashed_result env it) @ fst ?last, snd ?last)"
    using Inr rh by (simp add: try_body_at_hash)
  with assms have thrown: "snd ?last = Inl e" by simp
  have "List.map_filter processed_label (fst ?last) = []"
    using thrown
    by (auto simp: emit_def errors_step_unfold update_step_unfold
          List.map_filter_simps map_filter_append
          split: if_splits option.splits sum.splits)
  then show ?thesis by (simp add: body map_filter_append hashed_result_labels)
qed

lemma throwing_env_simps [simp]:
  "orchestrator_process (throwing_env v) e s = Inl v"
  "assertError (throwing_env v) = sample_assertError"
  by (simp_all add: throwing_env_def sample_env_def)

lemma unchanged_run:
  assumes "snd (hashed_result env it) = Inr (result, resultHash it)"
  shows "events (processTask env it) =
           ProcessStart (entityRef it) # fst (hashed_result env it) @ [MarkSuccessfulWithNoChanges]
         \<and> rejected (processTask env it) = None
         \<and> tracker_outcomes (events (processTask env it)) = [''unchanged'']
         \<and> \<not> (\<exists>ev \<in> set (events (processTask env it)). is_result_write ev \<or> is_stitch ev)"
proof -
  have body: "try_body env it = (fst (hashed_result env it) @ [MarkSuccessfulWithNoChanges], Inr ())"
    using assms by (simp add: try_body_at_hash emit_def)
  have ev: "events (processTask env it) =
           ProcessStart (entityRef it) # fst (hashed_result env it) @ [MarkSuccessfulWithNoChanges]"
    and rej: "rejected (processTask env it) = None"
    by (simp_all add: processTask_def body)
  have quiet: "\<forall>ev \<in> set (fst (hashed_result env it)).
      \<not> is_result_write ev \<and> \<not> is_stitch ev \<and> processed_label ev = None"
    using hashed_result_event_kinds by blast
  note labels = hashed_result_labels [of env it]
  have "tracker_outcomes (events (processTask env it)) = [''unchanged'']"
    by (simp add: ev tracker_outcomes_def List.map_filter_simps map_filter_append labels)
  moreover have "\<not> (\<exists>ev \<in> set (events (processTask env it)). is_result_write ev \<or> is_stitch ev)"
    using quiet by (auto simp: ev)
  ultimately show ?thesis using ev rej by blast
qed

lemma set_set_add [simp]: "set (set_add xs x) = insert x (set xs)"
  by (auto simp: set_add_def)

lemma distinct_set_add [simp]: "distinct xs \<Longrightarrow> distinct (set_add xs x)"
  by (simp add: set_add_def)

lemma foldl_guarded_add:
  "set (foldl (\<lambda>acc r. if P r then set_add acc r else acc) init xs) = set init \<union> {r \<in> set xs. P r}
   \<and> (distinct init \<longrightarrow> distinct (foldl (\<lambda>acc r. if P r then set_add acc r else acc) init xs))"
  by (induction xs arbitrary: init) auto

lemma set_new_Set [simp]: "set (new_Set xs) = set xs"
  using foldl_guarded_add [of "\<lambda>r. True" "[]" xs] by (simp add: new_Set_def)

lemma distinct_new_Set [simp]: "distinct (new_Set xs)"
  using foldl_guarded_add [of "\<lambda>r. True" "[]" xs] by (simp add: new_Set_def)

lemma set_setOfThingsToStitch:
  "set (setOfThingsToStitch self new old) = {self} \<union> (set new - set old) \<union> (set old - set new)"
  unfolding setOfThingsToStitch_def
  by (simp only: conjunct1 [OF foldl_guarded_add]) auto

lemma distinct_setOfThingsToStitch: "distinct (setOfThingsToStitch self new old)"
  unfolding setOfThingsToStitch_def
  by (intro mp [OF conjunct2 [OF foldl_guarded_add]]) simp

lemma set_stitch_refs:
  "set (stitch_refs env result entity previous) =
     {stringifyEntityRef env (JObj entity)}
     \<union> ((\<lambda>r. stringifyEntityRef env (source r)) ` set (relations result) - source_entity_ref ` set previous)
     \<union> (source_entity_ref ` set previous - (\<lambda>r. stringifyEntityRef env (source r)) ` set (relations result))"
  by (simp add: stitch_refs_def set_setOfThingsToStitch newRelationSources_def oldRelationSources_def)

lemma hashed_result_no_stitch: "filter is_stitch (fst (hashed_result env it)) = []"
  by (simp add: filter_empty_conv hashed_result_event_kinds)

lemma changed_run:
  assumes "snd (hashed_result env it) = Inr (result, h)"
    and "ok result"
    and "h \<noteq> resultHash it"
    and "stamp_uid (completedEntity result) (item_id it) = Inr entity"
    and "updateProcessedEntity env (processed_options env it result entity h) = Inr previous"
  shows "filter is_stitch (events (processTask env it))
           = [CallStitch (stitch_refs env result entity previous)]
     \<and> distinct (stitch_refs env result entity previous)
     \<and> set (stitch_refs env result entity previous) =
         {stringifyEntityRef env (JObj entity)}
         \<union> ((\<lambda>r. stringifyEntityRef env (source r)) ` set (relations result)
              - source_entity_ref ` set previous)
         \<union> (source_entity_ref ` set previous
              - (\<lambda>r. stringifyEntityRef env (source r)) ` set (relations result))
     \<and> (stitch env (stitch_refs env result entity previous) = None \<longrightarrow>
          rejected (processTask env it) = None
          \<and> tracker_outcomes (events (processTask env it)) = [''changed'']
          \<and> MarkSuccessfulWithChanges (card (set (stitch_refs env result entity previous)))
               \<in> set (events (processTask env it)))"
proof -
  let ?refs = "stitch_refs env result entity previous"
  let ?opts = "processed_options env it result entity h"
  have dist: "distinct ?refs"
    by (simp add: stitch_refs_def distinct_setOfThingsToStitch)
  have body: "try_body env it =
      (fst (hashed_result env it) @
         (case stitch env ?refs of
            Some e \<Rightarrow> [CallUpdateProcessedEntity ?opts, CallStitch ?refs]
          | None \<Rightarrow> [CallUpdateProcessedEntity ?opts, CallStitch ?refs,
                     MarkSuccessfulWithChanges (length ?refs)]),
       (case stitch env ?refs of Some e \<Rightarrow> Inl e | None \<Rightarrow> Inr ()))"
    using assms by (simp add: try_body_at_hash update_step_unfold split: option.split)
  have one: "filter is_stitch (events (processTask env it)) = [CallStitch ?refs]"
    by (simp add: processTask_events body hashed_result_no_stitch split: option.split)
  have finished: "rejected (processTask env it) = None
          \<and> tracker_outcomes (events (processTask env it)) = [''changed'']
          \<and> MarkSuccessfulWithChanges (card (set ?refs)) \<in> set (events (processTask env it))"
    if "stitch env ?refs = None"
    using that dist
    by (simp add: processTask_events processTask_rejected body tracker_outcomes_def
          List.map_filter_simps map_filter_append hashed_result_labels distinct_card)
  from one dist finished show ?thesis by (simp add: set_stitch_refs)
qed

lemma sample_env_simps [simp]:
  "orchestrator_process (sample_env answer previous) e st = answer"
  "updateEntityCache (sample_env answer previous) i obj = None"
  "listParents (sample_env answer previous) r = Inr []"
  "updateProcessedEntityErrors (sample_env answer previous) i es h = None"
  "updateProcessedEntity (sample_env answer previous) opts = Inr previous"
  "stitch (sample_env answer previous) refs = None"
  "stringifyEntityRef (sample_env answer previous) = sample_ref"
  "hash_digest (sample_env answer previous) = concat"
  "assertError (sample_env answer previous) = sample_assertError"
  "onProcessingError (sample_env answer previous) = None"
  by (simp_all add: sample_env_def)

lemma sample_success_simps [simp]:
  "ok (sample_success st rels)"
  "relations (sample_success st rels) = rels"
  "completedEntity (sample_success st rels) = entity_named ''a''"
  "result_state (sample_success st rels) = st"
  "errors (sample_success st rels) = []"
  by (simp_all add: sample_success_def)

lemma sample_item_simps [simp]:
  "item_id (sample_item st h) = ''id-1''"
  "state (sample_item st h) = st"
  "resultHash (sample_item st h) = h"
  "entityRef (sample_item st h) = ''a''"
  "unprocessedEntity (sample_item st h) = entity_named ''a''"
  by (simp_all add: sample_item_def)

lemma sample_success_reaches:
  "snd (hashed_result (sample_env (Inr (sample_success st rels)) previous) (sample_item old []))
     = Inr (sample_success st rels,
            concat (hash_chunks (sample_env (Inr (sample_success st rels)) previous)
                      (sample_success st rels) []))"
  by (simp add: hashed_result_reaches cache_step_def call_def returns_def)

lemma sample_success_hash_changed:
  "\<exists>chunk \<in> set (hash_chunks env (sample_success st rels) ps). chunk \<noteq> []"
  by (simp add: hash_chunks_def errorsString_def)

lemma stamp_sample_entity:
  "stamp_uid (entity_named ''a'') ''id-1'' =
     Inr [(''kind'', JStr ''Component''),
          (''metadata'', JObj [(''name'', JStr ''a''), (''uid'', JStr ''id-1'')])]"
  by (simp add: stamp_uid_def entity_named_def)

lemma sample_ref_simps [simp]:
  "sample_ref (ref_named n) = n"
  "sample_ref (JObj [(''kind'', JStr ''Component''),
          (''metadata'', JObj [(''name'', JStr ''a''), (''uid'', JStr ''id-1'')])]) = ''a''"
  by (simp_all add: sample_ref_def ref_named_def)

lemma sample_stitch_events:
  "filter is_stitch
     (events (processTask (sample_env (Inr (sample_success st rels)) previous) (sample_item old [])))
   = [CallStitch (setOfThingsToStitch ''a'' (new_Set (map (\<lambda>r. sample_ref (source r)) rels))
                    (new_Set (map source_entity_ref previous)))]"
proof -
  let ?env = "sample_env (Inr (sample_success st rels)) previous"
  let ?it = "sample_item old []"
  let ?h = "concat (hash_chunks ?env (sample_success st rels) [])"
  let ?entity = "[(''kind'', JStr ''Component''),
          (''metadata'', JObj [(''name'', JStr ''a''), (''uid'', JStr ''id-1'')])]"
  have a: "snd (hashed_result ?env ?it) = Inr (sample_success st rels, ?h)"
    by (rule sample_success_reaches)
  have b: "ok (sample_success st rels)" by simp
  have c: "?h \<noteq> resultHash ?it" by (simp add: sample_success_hash_changed)
  have d: "stamp_uid (completedEntity (sample_success st rels)) (item_id ?it) = Inr ?entity"
    by (simp add: stamp_sample_entity)
  have e: "updateProcessedEntity ?env (processed_options ?env ?it (sample_success st rels) ?entity ?h)
             = Inr previous" by simp
  from changed_run [OF a b c d e] show ?thesis
    by (simp add: stitch_refs_def newRelationSources_def oldRelationSources_def)
qed

lemma stableStringify_state_differs:
  "stableStringify_state st \<noteq> Some (stableStringify (JObj rs)) \<longleftrightarrow> \<not> same_state st rs"
  by (cases st)
     (simp_all add: stableStringify_state_def same_state_def stableStringify_eq_iff
        del: stableStringify.simps)

lemma hash_step_no_cache_write:
  "ev \<in> set (fst (hash_step env it result)) \<Longrightarrow> \<not> is_updateEntityCache ev"
  by (auto dest: hash_step_events_plain)

lemma update_step_no_cache_write:
  "ev \<in> set (fst (update_step env it result h)) \<Longrightarrow> \<not> is_updateEntityCache ev"
  by (auto simp: update_step_unfold split: sum.splits option.splits)

lemma filter_cache_step:
  "filter is_updateEntityCache (fst (cache_step env it result)) = fst (cache_step env it result)"
  by (simp add: cache_step_events)

lemma filter_none: "(\<And>x. x \<in> set xs \<Longrightarrow> \<not> P x) \<Longrightarrow> filter P xs = []"
  by (simp add: filter_empty_conv)

lemma cache_writes_before_hash:
  assumes "orchestrator_process env (unprocessedEntity it) (state it) = Inr result"
  shows "filter is_updateEntityCache (fst (hashed_result env it)) = fst (cache_step env it result)"
proof (cases "snd (cache_step env it result)")
  case (Inl e)
  with assms show ?thesis
    by (simp add: hashed_result_answer and_then_Inl filter_cache_step)
next
  case (Inr u)
  have "filter is_updateEntityCache (fst (warn_errors env it result)) = []"
    by (rule filter_none) (auto dest: warn_errors_events)
  moreover have "filter is_updateEntityCache
      (fst (and_then (hash_step env it result) (\<lambda>h. returns (result, h)))) = []"
    by (rule filter_none) (auto dest!: and_then_events hash_step_no_cache_write simp: returns_def)
  ultimately show ?thesis
    using assms Inr by (simp add: hashed_result_answer and_then_Inr filter_cache_step)
qed

lemma cache_writes_of_run:
  assumes "orchestrator_process env (unprocessedEntity it) (state it) = Inr result"
  shows "filter is_updateEntityCache (events (processTask env it)) = fst (cache_step env it result)"
proof -
  have tail: "filter is_updateEntityCache
      (case snd (try_body env it) of
        Inr u \<Rightarrow> []
      | Inl e \<Rightarrow> (case assertError env e of None \<Rightarrow> [MarkFailed e] | Some e' \<Rightarrow> [])) = []"
    by (simp split: sum.split option.split)
  have "filter is_updateEntityCache (fst (try_body env it))
      = filter is_updateEntityCache (fst (hashed_result env it))"
  proof (cases "snd (hashed_result env it)")
    case (Inl e)
    then show ?thesis by (simp add: try_body_before_hash)
  next
    case (Inr rh)
    obtain r h where rh: "rh = (r, h)" by (cases rh)
    have "filter is_updateEntityCache
        (fst (if h = resultHash it then emit [MarkSuccessfulWithNoChanges]
              else if \<not> ok r then errors_step env it r h
              else update_step env it r h)) = []"
      by (rule filter_none)
         (auto simp: emit_def dest: errors_step_no_cache_write update_step_no_cache_write
               split: if_splits)
    with Inr rh show ?thesis by (simp add: try_body_at_hash)
  qed
  with tail show ?thesis
    by (simp add: processTask_events cache_writes_before_hash [OF assms])
qed

lemma map_of_obj_spread:
  "distinct (map fst src) \<Longrightarrow> map_of (obj_spread base src) = map_of base ++ map_of src"
proof (induction src arbitrary: base)
  case Nil
  then show ?case by (simp add: obj_spread_def)
next
  case (Cons kv src)
  have step: "obj_spread base (kv # src) = obj_spread (obj_set base (fst kv) (snd kv)) src"
    by (simp add: obj_spread_def)
  have fresh: "fst kv \<notin> dom (map_of src)"
    using Cons.prems by (auto simp: dom_map_of_conv_image_fst)
  have "map_of (obj_spread base (kv # src)) = (map_of base)(fst kv \<mapsto> snd kv) ++ map_of src"
    using Cons.prems by (simp only: step Cons.IH map_of_obj_set distinct.simps list.map)
  also have "\<dots> = map_of base ++ map_of (kv # src)"
    using fresh by (cases kv) (auto simp: fun_eq_iff map_add_def split: option.splits)
  finally show ?case .
qed

lemma reordered_state_same:
  "same_state (Some [(''b'', JNum 1), (''a'', JNum 2)]) [(''a'', JNum 2), (''b'', JNum 1)]"
  unfolding same_state_def option.case
  by (rule key_order_is_immaterial) simp_all

lemma reordering_env_simps [simp]:
  "orchestrator_process reordering_env e None = Inr plain_result"
  "orchestrator_process reordering_env e (Some obj) = Inr reordered_result"
  "updateEntityCache reordering_env i st = None"
  "listParents reordering_env r = Inr []"
  by (simp_all add: reordering_env_def sample_env_def)










lemma reordering_env_more [simp]:
  "hash_digest reordering_env = concat"
  "serializeError reordering_env =
     (\<lambda>e. JObj [(''name'', JStr (err_name e)), (''message'', JStr (err_message e))])"
  by (simp_all add: reordering_env_def sample_env_def)

section \<open>The claims\<close>

text \<open>
  C1, as the code has it. For an \<open>ok\<close> result: when the new state differs from the
  item's previous state by more than the order of keys (or there is no previous state),
  the run calls \<open>updateEntityCache\<close> once, with \<open>{ ttl: 5, ...result.state }\<close>; when the
  two are the same up to the order of keys, the run does not call it. The written
  object has the keys of the new state with their values and, if the new state has no
  \<open>ttl\<close> of its own, \<open>ttl = 5\<close>; a \<open>ttl\<close> in the new state wins over the constant.
\<close>

theorem success_refreshes_cache_on_change:
  assumes "orchestrator_process env (unprocessedEntity it) (state it) = Inr result"
    and "ok result"
  shows "(\<not> same_state (state it) (result_state result) \<longrightarrow>
            filter is_updateEntityCache (events (processTask env it))
              = [CallUpdateEntityCache (item_id it) (refreshed_state (result_state result))])
     \<and> (same_state (state it) (result_state result) \<longrightarrow>
            filter is_updateEntityCache (events (processTask env it)) = [])
     \<and> (distinct (map fst (result_state result)) \<longrightarrow>
            map_of (refreshed_state (result_state result))
              = [''ttl'' \<mapsto> JNum CACHE_TTL] ++ map_of (result_state result))
     \<and> (distinct (map fst (result_state result)) \<and> map_of (result_state result) ''ttl'' = None \<longrightarrow>
            ttl_of (Some (refreshed_state (result_state result))) = 5)"
proof -
  have writes: "filter is_updateEntityCache (events (processTask env it)) =
      (if \<not> same_state (state it) (result_state result)
       then [CallUpdateEntityCache (item_id it) (refreshed_state (result_state result))] else [])"
    using assms
    by (simp add: cache_writes_of_run cache_step_events stableStringify_state_differs
          del: stableStringify.simps)
  have lookup: "map_of (refreshed_state (result_state result))
              = [''ttl'' \<mapsto> JNum CACHE_TTL] ++ map_of (result_state result)"
    if "distinct (map fst (result_state result))"
    using that by (simp add: refreshed_state_def map_of_obj_spread)
  have ttl: "ttl_of (Some (refreshed_state (result_state result))) = 5"
    if "distinct (map fst (result_state result))" and "map_of (result_state result) ''ttl'' = None"
    using that lookup by (simp add: ttl_of_def map_add_def CACHE_TTL_def)
  from writes lookup ttl show ?thesis by simp
qed

theorem success_refreshes_cache_on_change_witness:
  "filter is_updateEntityCache
     (events (processTask (sample_env (Inr (sample_success [(''a'', JNum 2), (''b'', JNum 1)] [])) [])
                (sample_item (Some [(''b'', JNum 1), (''a'', JNum 2)]) []))) = []
   \<and> filter is_updateEntityCache
       (events (processTask (sample_env (Inr (sample_success [(''cache'', JObj [])] [])) [])
                  (sample_item None [])))
       = [CallUpdateEntityCache ''id-1'' [(''ttl'', JNum 5), (''cache'', JObj [])]]
   \<and> ttl_of (Some [(''ttl'', JNum 5), (''cache'', JObj [])]) = 5"
proof -
  let ?r1 = "sample_success [(''a'', JNum 2), (''b'', JNum 1)] []"
  let ?i1 = "sample_item (Some [(''b'', JNum 1), (''a'', JNum 2)]) []"
  let ?r2 = "sample_success [(''cache'', JObj [])] []"
  let ?i2 = "sample_item None []"
  have a1: "orchestrator_process (sample_env (Inr ?r1) []) (unprocessedEntity ?i1) (state ?i1) = Inr ?r1"
    and a2: "orchestrator_process (sample_env (Inr ?r2) []) (unprocessedEntity ?i2) (state ?i2) = Inr ?r2"
    by simp_all
  have same: "same_state (state ?i1) (result_state ?r1)"
    using reordered_state_same by simp
  have differs: "\<not> same_state (state ?i2) (result_state ?r2)"
    by (simp add: same_state_def)
  have fresh: "refreshed_state (result_state ?r2) = [(''ttl'', JNum 5), (''cache'', JObj [])]"
    by (simp add: refreshed_state_def obj_spread_def CACHE_TTL_def)
  have plain: "distinct (map fst (result_state ?r2)) \<and> map_of (result_state ?r2) ''ttl'' = None"
    by simp
  from success_refreshes_cache_on_change [OF a1] same
  have one: "filter is_updateEntityCache (events (processTask (sample_env (Inr ?r1) []) ?i1)) = []"
    by simp
  from success_refreshes_cache_on_change [OF a2] differs plain
  have "filter is_updateEntityCache (events (processTask (sample_env (Inr ?r2) []) ?i2))
          = [CallUpdateEntityCache (item_id ?i2) (refreshed_state (result_state ?r2))]"
    and "ttl_of (Some (refreshed_state (result_state ?r2))) = 5"
    by simp_all
  with one show ?thesis unfolding fresh by simp
qed

theorem own_ttl_overrides_cache_ttl:
  "filter is_updateEntityCache
     (events (processTask (sample_env (Inr (sample_success [(''ttl'', JNum 3)] [])) [])
                (sample_item None [])))
     = [CallUpdateEntityCache ''id-1'' [(''ttl'', JNum 3)]]
   \<and> ttl_of (Some [(''ttl'', JNum 3)]) \<noteq> CACHE_TTL"
  by (simp add: cache_writes_of_run cache_step_def call_def stableStringify_state_def
        refreshed_state_def obj_spread_def ttl_of_def CACHE_TTL_def)

text \<open>
  C2. When the computed \<open>resultHash\<close> is the item's previous one, the handler stops after
  the cache bookkeeping: its events are those up to the digest and then the tracker's
  mark for an unchanged item; the promise resolves; the tracker counts the item as
  \<open>unchanged\<close>; and the run calls neither \<open>updateProcessedEntity\<close> nor
  \<open>updateProcessedEntityErrors\<close> nor the stitcher.
\<close>

theorem unchanged_hash_stops:
  assumes "snd (hashed_result env it) = Inr (result, resultHash it)"
  shows "events (processTask env it) =
           ProcessStart (entityRef it) # fst (hashed_result env it) @ [MarkSuccessfulWithNoChanges]
         \<and> rejected (processTask env it) = None
         \<and> tracker_outcomes (events (processTask env it)) = [''unchanged'']
         \<and> \<not> (\<exists>ev \<in> set (events (processTask env it)). is_result_write ev \<or> is_stitch ev)"
  using assms by (rule unchanged_run)

theorem unchanged_hash_stops_witness:
  "snd (hashed_result failing_env unchanged_failure_item)
     = Inr (sample_failure, resultHash unchanged_failure_item)
   \<and> rejected (processTask failing_env unchanged_failure_item) = None
   \<and> tracker_outcomes (events (processTask failing_env unchanged_failure_item)) = [''unchanged'']
   \<and> \<not> (\<exists>ev \<in> set (events (processTask failing_env unchanged_failure_item)).
           is_result_write ev \<or> is_stitch ev)"
proof -
  have h: "snd (hashed_result failing_env unchanged_failure_item)
     = Inr (sample_failure, resultHash unchanged_failure_item)"
    by (simp add: hashed_result_reaches cache_step_def call_def sample_failure_def
          unchanged_failure_item_def sample_item_def)
  from unchanged_hash_stops [OF h] h show ?thesis by blast
qed

text \<open>
  C3, as the code has it. For an \<open>ok\<close> result whose hash differs from the previous one,
  after the uid is stamped and \<open>updateProcessedEntity\<close> has returned the previous
  relations, the run calls the stitcher once, with a set that holds each member once:
  the reference of the completed entity, every source of a new relation that is no
  source of a stored relation, and every source of a stored relation that is no source
  of a new one. When the stitcher returns, the tracker counts the item as \<open>changed\<close>,
  with the size of that set. The set is taken over the sources of the relations: stored
  relations with sources \<open>x, y\<close> and new ones with sources \<open>y, z\<close> give \<open>{a, x, z}\<close>
  for entity \<open>a\<close>, while relations \<open>a \<rightarrow> x, a \<rightarrow> y\<close> before and \<open>a \<rightarrow> y, a \<rightarrow> z\<close>
  after, whose source is \<open>a\<close> itself, give \<open>{a}\<close>.
\<close>

theorem stitch_set_is_symmetric_difference:
  assumes "snd (hashed_result env it) = Inr (result, h)"
    and "ok result"
    and "h \<noteq> resultHash it"
    and "stamp_uid (completedEntity result) (item_id it) = Inr entity"
    and "updateProcessedEntity env (processed_options env it result entity h) = Inr previous"
  shows "filter is_stitch (events (processTask env it))
           = [CallStitch (stitch_refs env result entity previous)]
     \<and> distinct (stitch_refs env result entity previous)
     \<and> set (stitch_refs env result entity previous) =
         {stringifyEntityRef env (JObj entity)}
         \<union> ((\<lambda>r. stringifyEntityRef env (source r)) ` set (relations result)
              - source_entity_ref ` set previous)
         \<union> (source_entity_ref ` set previous
              - (\<lambda>r. stringifyEntityRef env (source r)) ` set (relations result))
     \<and> (stitch env (stitch_refs env result entity previous) = None \<longrightarrow>
          rejected (processTask env it) = None
          \<and> tracker_outcomes (events (processTask env it)) = [''changed'']
          \<and> MarkSuccessfulWithChanges (card (set (stitch_refs env result entity previous)))
               \<in> set (events (processTask env it)))"
  using assms by (rule changed_run)

theorem stitch_set_is_symmetric_difference_witness:
  "filter is_stitch (events (processTask inbound_env (sample_item None [])))
     = [CallStitch [''a'', ''z'', ''x'']]
   \<and> set [''a'', ''z'', ''x''] = {''a'', ''x'', ''z''}"
proof -
  let ?it = "sample_item None []"
  let ?h = "concat (hash_chunks inbound_env inbound_result [])"
  let ?entity = "[(''kind'', JStr ''Component''),
          (''metadata'', JObj [(''name'', JStr ''a''), (''uid'', JStr ''id-1'')])]"
  let ?previous = "[row_from ''x'' ''a'', row_from ''y'' ''a'']"
  have a: "snd (hashed_result inbound_env ?it) = Inr (inbound_result, ?h)"
    unfolding inbound_env_def inbound_result_def by (rule sample_success_reaches)
  have b: "ok inbound_result" by (simp add: inbound_result_def)
  have c: "?h \<noteq> resultHash ?it"
    by (simp add: inbound_result_def sample_success_hash_changed)
  have d: "stamp_uid (completedEntity inbound_result) (item_id ?it) = Inr ?entity"
    by (simp add: inbound_result_def stamp_sample_entity)
  have e: "updateProcessedEntity inbound_env (processed_options inbound_env ?it inbound_result ?entity ?h)
             = Inr ?previous" by (simp add: inbound_env_def)
  have refs: "stitch_refs inbound_env inbound_result ?entity ?previous = [''a'', ''z'', ''x'']"
    by (simp add: stitch_refs_def newRelationSources_def oldRelationSources_def inbound_env_def
          inbound_result_def setOfThingsToStitch_def new_Set_def set_add_def row_from_def)
  from stitch_set_is_symmetric_difference [OF a b c d e]
  have "filter is_stitch (events (processTask inbound_env ?it))
           = [CallStitch (stitch_refs inbound_env inbound_result ?entity ?previous)]"
    by blast
  then show ?thesis unfolding refs by auto
qed

theorem outbound_relations_stitch_only_self:
  "filter is_stitch (events (processTask outbound_env (sample_item None [])))
     = [CallStitch [''a'']]
   \<and> set [''a''] \<noteq> {''a'', ''x'', ''z''}"
proof -
  have "filter is_stitch (events (processTask outbound_env (sample_item None [])))
     = [CallStitch [''a'']]"
    unfolding outbound_env_def
    by (simp add: sample_stitch_events setOfThingsToStitch_def new_Set_def set_add_def row_from_def)
  then show ?thesis by auto
qed



text \<open>
  C5, as the code has it. A result that is not \<open>ok\<close> makes the handler call
  \<open>updateEntityCache\<close> with the decayed state. The code tests the old \<open>ttl\<close>: while the
  \<open>ttl\<close> member of the old state is a positive integer (up to \<open>2^53\<close>, where the
  subtraction is exact) the written state is the old one with \<open>ttl\<close> one less, so an
  old \<open>ttl\<close> of 1 writes the state with \<open>ttl\<close> 0 and not \<open>{}\<close>; when the old \<open>ttl\<close> is 0 or
  less, absent or no integer, the written state is \<open>{}\<close>. A written \<open>ttl\<close> is never
  negative. Over runs in a row that are not \<open>ok\<close>, each starting from the state the last
  one wrote, a \<open>ttl\<close> of \<open>n\<close> counts down by one per run to 0, and every later run
  leaves the empty state. Above \<open>2^53\<close> the subtraction rounds: \<open>2^53 + 2\<close> is written
  as \<open>2^53\<close>, and from \<open>2^54\<close> on the \<open>ttl\<close> is written back as it is.
\<close>

theorem failure_decrements_ttl:
  assumes "orchestrator_process env (unprocessedEntity it) (state it) = Inr result"
    and "\<not> ok result"
  shows "CallUpdateEntityCache (item_id it) (decayed_state (state it))
           \<in> set (events (processTask env it))
     \<and> (\<forall>obj n. state it = Some obj \<and> map_of obj ''ttl'' = Some (JNum n)
                \<and> 0 < n \<and> n \<le> 9007199254740992 \<longrightarrow>
            decayed_state (state it) = obj_set (obj_spread [] obj) ''ttl'' (JNum (n - 1))
          \<and> map_of (decayed_state (state it)) ''ttl'' = Some (JNum (n - 1))
          \<and> decayed_state (state it) \<noteq> []
          \<and> (distinct (map fst obj) \<longrightarrow>
                map_of (decayed_state (state it)) = (map_of obj)(''ttl'' \<mapsto> JNum (n - 1))))
     \<and> (\<forall>obj n. state it = Some obj \<and> map_of obj ''ttl'' = Some (JNum n) \<and> n \<le> 0 \<longrightarrow>
            decayed_state (state it) = [])
     \<and> (state it = None \<or>
          (\<exists>obj. state it = Some obj \<and> \<not> (\<exists>n. map_of obj ''ttl'' = Some (JNum n))) \<longrightarrow>
            decayed_state (state it) = [])
     \<and> (\<forall>n. map_of (decayed_state (state it)) ''ttl'' = Some (JNum n) \<longrightarrow> 0 \<le> n)
     \<and> (\<forall>obj n. state it = Some obj \<and> map_of obj ''ttl'' = Some (JNum n)
                \<and> 0 \<le> n \<and> n \<le> 9007199254740992 \<longrightarrow>
            (\<forall>k. int k \<le> n \<longrightarrow>
               (\<exists>obj'. after_failures k (state it) = Some obj'
                      \<and> map_of obj' ''ttl'' = Some (JNum (n - int k))))
          \<and> (\<forall>k. n < int k \<longrightarrow> after_failures k (state it) = Some []))"
proof -
  have "CallUpdateEntityCache (item_id it) (decayed_state (state it))
           \<in> set (fst (hashed_result env it))"
    using assms by (simp add: hashed_result_failed split: option.split)
  then have "CallUpdateEntityCache (item_id it) (decayed_state (state it))
           \<in> set (fst (try_body env it))"
    by (cases "snd (hashed_result env it)") (auto simp: try_body_def and_then_Inl and_then_Inr)
  then have written: "CallUpdateEntityCache (item_id it) (decayed_state (state it))
           \<in> set (events (processTask env it))"
    by (simp add: processTask_events)
  have live: "\<forall>obj n. state it = Some obj \<and> map_of obj ''ttl'' = Some (JNum n)
                \<and> 0 < n \<and> n \<le> 9007199254740992 \<longrightarrow>
            decayed_state (state it) = obj_set (obj_spread [] obj) ''ttl'' (JNum (n - 1))
          \<and> map_of (decayed_state (state it)) ''ttl'' = Some (JNum (n - 1))
          \<and> decayed_state (state it) \<noteq> []
          \<and> (distinct (map fst obj) \<longrightarrow>
                map_of (decayed_state (state it)) = (map_of obj)(''ttl'' \<mapsto> JNum (n - 1)))"
  proof (intro allI impI, elim conjE)
    fix obj n
    assume "state it = Some obj" and "map_of obj ''ttl'' = Some (JNum n)"
      and "0 < n" and "n \<le> 9007199254740992"
    then show "decayed_state (state it) = obj_set (obj_spread [] obj) ''ttl'' (JNum (n - 1))
          \<and> map_of (decayed_state (state it)) ''ttl'' = Some (JNum (n - 1))
          \<and> decayed_state (state it) \<noteq> []
          \<and> (distinct (map fst obj) \<longrightarrow>
                map_of (decayed_state (state it)) = (map_of obj)(''ttl'' \<mapsto> JNum (n - 1)))"
      using decayed_state_member [of obj n] decayed_state_lookup [of obj n]
      by (simp add: js_minus_one_safe map_of_obj_set)
  qed
  have expired: "\<forall>obj n. state it = Some obj \<and> map_of obj ''ttl'' = Some (JNum n) \<and> n \<le> 0 \<longrightarrow>
            decayed_state (state it) = []"
    by (simp add: decayed_state_expired ttl_of_member)
  have none: "state it = None \<or>
          (\<exists>obj. state it = Some obj \<and> \<not> (\<exists>n. map_of obj ''ttl'' = Some (JNum n))) \<longrightarrow>
            decayed_state (state it) = []"
    using no_integer_ttl [of "state it"] by (auto simp: decayed_state_expired)
  have nonneg: "\<forall>n. map_of (decayed_state (state it)) ''ttl'' = Some (JNum n) \<longrightarrow> 0 \<le> n"
    using written_ttl_nonneg by blast
  have runs: "\<forall>obj n. state it = Some obj \<and> map_of obj ''ttl'' = Some (JNum n)
                \<and> 0 \<le> n \<and> n \<le> 9007199254740992 \<longrightarrow>
            (\<forall>k. int k \<le> n \<longrightarrow>
               (\<exists>obj'. after_failures k (state it) = Some obj'
                      \<and> map_of obj' ''ttl'' = Some (JNum (n - int k))))
          \<and> (\<forall>k. n < int k \<longrightarrow> after_failures k (state it) = Some [])"
  proof (intro allI impI, elim conjE)
    fix obj n
    assume st: "state it = Some obj" and ttl: "map_of obj ''ttl'' = Some (JNum n)"
      and lo: "0 \<le> n" and hi: "n \<le> 9007199254740992"
    have "\<exists>obj'. after_failures k (state it) = Some obj'
                      \<and> map_of obj' ''ttl'' = Some (JNum (n - int k))" if "int k \<le> n" for k
      unfolding st using ttl hi that by (rule after_failures_countdown)
    moreover have "after_failures k (state it) = Some []" if "n < int k" for k
      unfolding st using ttl lo hi that by (rule after_failures_empty)
    ultimately show "(\<forall>k. int k \<le> n \<longrightarrow>
               (\<exists>obj'. after_failures k (state it) = Some obj'
                      \<and> map_of obj' ''ttl'' = Some (JNum (n - int k))))
          \<and> (\<forall>k. n < int k \<longrightarrow> after_failures k (state it) = Some [])"
      by blast
  qed
  show ?thesis
    by (intro conjI) (rule written live expired none nonneg runs)+
qed

theorem failure_decrements_ttl_witness:
  "CallUpdateEntityCache ''id-1'' [(''ttl'', JNum 1), (''cache'', JObj [])]
     \<in> set (events (processTask failing_env
                     (sample_item (Some [(''ttl'', JNum 2), (''cache'', JObj [])]) [])))
   \<and> after_failures 2 (Some [(''ttl'', JNum 2), (''cache'', JObj [])])
       = Some [(''ttl'', JNum 0), (''cache'', JObj [])]
   \<and> after_failures 3 (Some [(''ttl'', JNum 2), (''cache'', JObj [])]) = Some []
   \<and> decayed_state (Some [(''ttl'', JNum 0), (''cache'', JObj [])]) = []
   \<and> decayed_state None = []"
proof -
  let ?obj = "[(''ttl'', JNum 2), (''cache'', JObj [])]"
  let ?it = "sample_item (Some ?obj) []"
  let ?zero = "sample_item (Some [(''ttl'', JNum 0), (''cache'', JObj [])]) []"
  let ?absent = "sample_item None []"
  have st: "state ?it = Some ?obj" by simp
  have ttl: "map_of ?obj ''ttl'' = Some (JNum 2)" by simp
  have a: "orchestrator_process failing_env (unprocessedEntity ?it) (state ?it) = Inr sample_failure"
    and a0: "orchestrator_process failing_env (unprocessedEntity ?zero) (state ?zero) = Inr sample_failure"
    and an: "orchestrator_process failing_env (unprocessedEntity ?absent) (state ?absent) = Inr sample_failure"
    by simp_all
  have b: "\<not> ok sample_failure" by (simp add: sample_failure_def)
  note t = failure_decrements_ttl [OF a b]
  from t have written: "CallUpdateEntityCache (item_id ?it) (decayed_state (state ?it))
      \<in> set (events (processTask failing_env ?it))" by blast
  from t have "state ?it = Some ?obj \<and> map_of ?obj ''ttl'' = Some (JNum 2)
                \<and> 0 < (2::int) \<and> (2::int) \<le> 9007199254740992 \<longrightarrow>
            decayed_state (state ?it) = obj_set (obj_spread [] ?obj) ''ttl'' (JNum (2 - 1))"
    by blast
  with st ttl have dec: "decayed_state (state ?it) = obj_set (obj_spread [] ?obj) ''ttl'' (JNum (2 - 1))"
    by simp
  from t have "state ?it = Some ?obj \<and> map_of ?obj ''ttl'' = Some (JNum 2)
                \<and> 0 \<le> (2::int) \<and> (2::int) \<le> 9007199254740992 \<longrightarrow>
            (2 < int 3 \<longrightarrow> after_failures 3 (state ?it) = Some [])"
    by blast
  with st ttl have gone: "after_failures 3 (Some ?obj) = Some []"
    by (simp del: after_failures.simps)
  have st0: "state ?zero = Some [(''ttl'', JNum 0), (''cache'', JObj [])]" by simp
  from failure_decrements_ttl [OF a0 b]
  have "state ?zero = Some [(''ttl'', JNum 0), (''cache'', JObj [])]
          \<and> map_of [(''ttl'', JNum 0), (''cache'', JObj [])] ''ttl'' = Some (JNum 0) \<and> (0::int) \<le> 0
        \<longrightarrow> decayed_state (state ?zero) = []"
    by blast
  with st0 have zero: "decayed_state (Some [(''ttl'', JNum 0), (''cache'', JObj [])]) = []"
    by simp
  from failure_decrements_ttl [OF an b]
  have "state ?absent = None \<or>
          (\<exists>obj. state ?absent = Some obj \<and> \<not> (\<exists>n. map_of obj ''ttl'' = Some (JNum n))) \<longrightarrow>
            decayed_state (state ?absent) = []"
    by blast
  then have absent: "decayed_state None = []" by simp
  have one: "obj_set (obj_spread [] ?obj) ''ttl'' (JNum (2 - 1)) = [(''ttl'', JNum 1), (''cache'', JObj [])]"
    by (simp add: obj_spread_def)
  have "decayed_state (Some ?obj) = [(''ttl'', JNum 1), (''cache'', JObj [])]"
    using dec st one by simp
  moreover have "decayed_state (Some [(''ttl'', JNum 1), (''cache'', JObj [])])
      = [(''ttl'', JNum 0), (''cache'', JObj [])]"
    by (simp add: decayed_state_def ttl_of_def obj_spread_def js_minus_one_def)
  ultimately have two: "after_failures (Suc (Suc 0)) (Some ?obj) = Some [(''ttl'', JNum 0), (''cache'', JObj [])]"
    by simp
  have "after_failures 2 (Some ?obj) = after_failures (Suc (Suc 0)) (Some ?obj)"
    by (simp only: numeral_2_eq_2)
  with two have "after_failures 2 (Some ?obj) = Some [(''ttl'', JNum 0), (''cache'', JObj [])]"
    by (simp only:)
  with written dec one gone zero absent show ?thesis
    by (simp del: after_failures.simps)
qed

theorem ttl_zero_is_written_before_empty:
  "CallUpdateEntityCache ''id-1'' [(''ttl'', JNum 0), (''cache'', JObj [])]
     \<in> set (events (processTask failing_env
                     (sample_item (Some [(''ttl'', JNum 1), (''cache'', JObj [])]) [])))
   \<and> [(''ttl'', JNum 0), (''cache'', JObj [])] \<noteq> ([] :: jobj)
   \<and> CallUpdateEntityCache ''id-1'' [(''ttl'', JNum 18014398509481984)]
     \<in> set (events (processTask failing_env
                     (sample_item (Some [(''ttl'', JNum 18014398509481984)]) [])))
   \<and> CallUpdateEntityCache ''id-1'' [(''ttl'', JNum 9007199254740992)]
     \<in> set (events (processTask failing_env
                     (sample_item (Some [(''ttl'', JNum 9007199254740994)]) [])))"
proof -
  have run: "CallUpdateEntityCache ''id-1'' (decayed_state st)
      \<in> set (events (processTask failing_env (sample_item st [])))" for st
  proof -
    have "filter is_updateEntityCache (events (processTask failing_env (sample_item st [])))
        = [CallUpdateEntityCache ''id-1'' (decayed_state st)]"
      by (simp add: cache_writes_of_run cache_step_events sample_failure_def)
    then have "CallUpdateEntityCache ''id-1'' (decayed_state st)
        \<in> set (filter is_updateEntityCache (events (processTask failing_env (sample_item st []))))"
      by simp
    then show ?thesis by simp
  qed
  have "decayed_state (Some [(''ttl'', JNum 1), (''cache'', JObj [])])
      = [(''ttl'', JNum 0), (''cache'', JObj [])]"
    by (simp add: decayed_state_def ttl_of_def obj_spread_def js_minus_one_def)
  moreover have "decayed_state (Some [(''ttl'', JNum 18014398509481984)])
      = [(''ttl'', JNum 18014398509481984)]"
    by (simp add: decayed_state_def ttl_of_def obj_spread_def js_minus_one_def)
  moreover have "decayed_state (Some [(''ttl'', JNum 9007199254740994)])
      = [(''ttl'', JNum 9007199254740992)]"
    by (simp add: decayed_state_def ttl_of_def obj_spread_def js_minus_one_def)
  ultimately show ?thesis
    using run [of "Some [(''ttl'', JNum 1), (''cache'', JObj [])]"]
      run [of "Some [(''ttl'', JNum 18014398509481984)]"]
      run [of "Some [(''ttl'', JNum 9007199254740994)]"]
    by simp
qed

text \<open>
  C6. A result that is not \<open>ok\<close> and whose hash differs from the previous one, with a
  store and a stitcher that do not throw: the handler writes the serialized errors
  (\<open>JSON.stringify\<close> of the list of serialized errors, which is read back from the
  string) and the hash with \<open>updateProcessedEntityErrors\<close>, hands the stitcher the
  one-element set of the reference of the item's entity
  (\<open>stringifyEntityRef(unprocessedEntity)\<close>, which is the item's \<open>entityRef\<close> when the
  store keeps the two in step), and the tracker counts the item under \<open>errors\<close>. In a
  chain of its own the error listener, if there is one, is called once with the entity
  and the errors; what it throws is logged there, and the handler's promise resolves
  whatever the listener does.
\<close>

theorem failed_result_is_stored_and_stitched:
  assumes "snd (hashed_result env it) = Inr (result, h)"
    and "\<not> ok result"
    and "h \<noteq> resultHash it"
    and "updateProcessedEntityErrors env (item_id it)
           (JSON_stringify (JArr (map (serializeError env) (errors result)))) h = None"
    and "stitch env [stringifyEntityRef env (JObj (unprocessedEntity it))] = None"
  shows "events (processTask env it) =
           ProcessStart (entityRef it) # fst (hashed_result env it) @
           [CallUpdateProcessedEntityErrors (item_id it)
              (JSON_stringify (JArr (map (serializeError env) (errors result)))) h,
            CallStitch [stringifyEntityRef env (JObj (unprocessedEntity it))],
            MarkSuccessfulWithErrors]
         \<and> (\<forall>js. JSON_stringify (JArr js)
                    = JSON_stringify (JArr (map (serializeError env) (errors result)))
                \<longrightarrow> js = map (serializeError env) (errors result))
         \<and> rejected (processTask env it) = None
         \<and> tracker_outcomes (events (processTask env it)) = [''errors'']
         \<and> detached (processTask env it) =
             (case onProcessingError env of
                None \<Rightarrow> []
              | Some listener \<Rightarrow>
                  NotifyObserver (unprocessedEntity it) (errors result) #
                  (case listener (unprocessedEntity it) (errors result) of
                     None \<Rightarrow> []
                   | Some e \<Rightarrow> [LoggerDebug e]))
         \<and> (entityRef it = stringifyEntityRef env (JObj (unprocessedEntity it)) \<longrightarrow>
              CallStitch [entityRef it] \<in> set (events (processTask env it)))"
proof -
  let ?errs = "JSON_stringify (JArr (map (serializeError env) (errors result)))"
  have str: "errorsString env result = ?errs" by (simp add: errorsString_def)
  have body: "try_body env it =
      (fst (hashed_result env it) @
       [CallUpdateProcessedEntityErrors (item_id it) ?errs h,
        CallStitch [stringifyEntityRef env (JObj (unprocessedEntity it))],
        MarkSuccessfulWithErrors], Inr ())"
    using assms by (simp add: try_body_at_hash errors_step_unfold str)
  have ev: "events (processTask env it) =
           ProcessStart (entityRef it) # fst (hashed_result env it) @
           [CallUpdateProcessedEntityErrors (item_id it) ?errs h,
            CallStitch [stringifyEntityRef env (JObj (unprocessedEntity it))],
            MarkSuccessfulWithErrors]"
    and rej: "rejected (processTask env it) = None"
    by (simp_all add: processTask_events processTask_rejected body)
  have reread: "js = map (serializeError env) (errors result)"
    if "JSON_stringify (JArr js) = ?errs" for js
    using JSON_stringify_inj [OF that] by simp
  have heard: "detached (processTask env it) =
             (case onProcessingError env of
                None \<Rightarrow> []
              | Some listener \<Rightarrow>
                  NotifyObserver (unprocessedEntity it) (errors result) #
                  (case listener (unprocessedEntity it) (errors result) of
                     None \<Rightarrow> []
                   | Some e \<Rightarrow> [LoggerDebug e]))"
    using assms(1,2,3) by (simp add: processTask_detached detached_chain_def observer_chain_def)
  have labels: "tracker_outcomes (events (processTask env it)) = [''errors'']"
    by (simp add: ev tracker_outcomes_def List.map_filter_simps map_filter_append
          hashed_result_labels)
  have own: "entityRef it = stringifyEntityRef env (JObj (unprocessedEntity it)) \<longrightarrow>
              CallStitch [entityRef it] \<in> set (events (processTask env it))"
    by (simp add: ev)
  from ev reread rej labels heard own show ?thesis by blast
qed

theorem failed_result_is_stored_and_stitched_witness:
  "snd (hashed_result noisy_env (sample_item None [])) =
      Inr (sample_failure, hash_digest noisy_env (hash_chunks noisy_env sample_failure []))
   \<and> hash_digest noisy_env (hash_chunks noisy_env sample_failure []) \<noteq> []
   \<and> rejected (processTask noisy_env (sample_item None [])) = None
   \<and> tracker_outcomes (events (processTask noisy_env (sample_item None []))) = [''errors'']
   \<and> CallStitch [''a''] \<in> set (events (processTask noisy_env (sample_item None [])))
   \<and> CallUpdateProcessedEntityErrors ''id-1''
        ''[{\"name\":\"InputError\",\"message\":\"bad\"}]''
        ''[{\"name\":\"InputError\",\"message\":\"bad\"}]''
       \<in> set (events (processTask noisy_env (sample_item None [])))
   \<and> detached (processTask noisy_env (sample_item None []))
       = [NotifyObserver (entity_named ''a'') [Error ''InputError'' ''bad''],
          LoggerDebug (ThrownValue (JStr ''listener down''))]"
proof -
  let ?it = "sample_item None []"
  let ?h = "hash_digest noisy_env (hash_chunks noisy_env sample_failure [])"
  let ?errs = "JSON_stringify (JArr (map (serializeError noisy_env) (errors sample_failure)))"
  have env [simp]: "orchestrator_process noisy_env (entity_named ''a'') None = Inr sample_failure"
    "updateEntityCache noisy_env ''id-1'' (decayed_state None) = None"
    "stringifyEntityRef noisy_env = sample_ref"
    "hash_digest noisy_env = concat"
    "onProcessingError noisy_env = Some (\<lambda>entity es. Some (ThrownValue (JStr ''listener down'')))"
    by (simp_all add: noisy_env_def failing_env_def)
  have h: "snd (hashed_result noisy_env ?it) = Inr (sample_failure, ?h)"
    by (simp add: hashed_result_reaches cache_step_def call_def sample_failure_def)
  have nok: "\<not> ok sample_failure" by (simp add: sample_failure_def)
  have ne: "?h \<noteq> resultHash ?it"
    by (simp add: hash_chunks_def sample_failure_def errorsString_def)
  have ref: "stringifyEntityRef noisy_env (JObj (unprocessedEntity ?it)) = ''a''"
    by (simp add: entity_named_def sample_ref_def)
  have own: "entityRef ?it = ''a''" by simp
  have ne': "?h \<noteq> []" using ne by simp
  have literal: "?errs = ''[{\"name\":\"InputError\",\"message\":\"bad\"}]''"
    by (simp add: noisy_env_def failing_env_def sample_env_def sample_failure_def quote_def
          escape_char_def)
  have hash: "?h = ''[{\"name\":\"InputError\",\"message\":\"bad\"}]''"
    using literal by (simp add: hash_chunks_def errorsString_def sample_failure_def)
  have "updateProcessedEntityErrors noisy_env (item_id ?it) ?errs ?h = None"
    and "stitch noisy_env [stringifyEntityRef noisy_env (JObj (unprocessedEntity ?it))] = None"
    by (simp_all add: noisy_env_def failing_env_def)
  note t = failed_result_is_stored_and_stitched [OF h nok ne this]
  from t have ev: "events (processTask noisy_env ?it) =
           ProcessStart (entityRef ?it) # fst (hashed_result noisy_env ?it) @
           [CallUpdateProcessedEntityErrors (item_id ?it) ?errs ?h,
            CallStitch [stringifyEntityRef noisy_env (JObj (unprocessedEntity ?it))],
            MarkSuccessfulWithErrors]"
    by (rule conjunct1)
  from t have rej: "rejected (processTask noisy_env ?it) = None"
    and labels: "tracker_outcomes (events (processTask noisy_env ?it)) = [''errors'']"
    by blast+
  from t have "detached (processTask noisy_env ?it) =
             (case onProcessingError noisy_env of
                None \<Rightarrow> []
              | Some listener \<Rightarrow>
                  NotifyObserver (unprocessedEntity ?it) (errors sample_failure) #
                  (case listener (unprocessedEntity ?it) (errors sample_failure) of
                     None \<Rightarrow> []
                   | Some e \<Rightarrow> [LoggerDebug e]))"
    by blast
  then have heard: "detached (processTask noisy_env ?it) =
           [NotifyObserver (entity_named ''a'') [Error ''InputError'' ''bad''],
            LoggerDebug (ThrownValue (JStr ''listener down''))]"
    by (simp add: sample_failure_def)
  have stored: "CallUpdateProcessedEntityErrors ''id-1''
        ''[{\"name\":\"InputError\",\"message\":\"bad\"}]''
        ''[{\"name\":\"InputError\",\"message\":\"bad\"}]''
       \<in> set (events (processTask noisy_env ?it))"
    unfolding ev literal hash by simp
  have stitched: "CallStitch [''a''] \<in> set (events (processTask noisy_env ?it))"
    unfolding ev ref by simp
  from h ne' rej labels stitched stored heard show ?thesis by blast
qed

text \<open>
  C7, as the code has it. What is thrown inside the \<open>try\<close> block is caught, and the
  \<open>catch\<close> clause first calls \<open>assertError\<close> on it. When that passes, the promise of
  \<open>processTask\<close> resolves, \<open>markFailed\<close> is the last event and the tracker counts the
  item as \<open>failed\<close> and as nothing else. When the orchestrator's \<open>process\<close> throws, the
  run makes no store write and no stitch call, and the promise rejects exactly when
  \<open>assertError\<close> rejects the thrown value. When \<open>assertError\<close> throws, its error leaves
  \<open>processTask\<close> and the tracker records no outcome.
\<close>

theorem errors_are_caught_and_tracked:
  "(\<forall>e. snd (try_body env it) = Inl e \<and> assertError env e = None \<longrightarrow>
        rejected (processTask env it) = None
      \<and> events (processTask env it) = ProcessStart (entityRef it) # fst (try_body env it) @ [MarkFailed e]
      \<and> tracker_outcomes (events (processTask env it)) = [''failed''])
   \<and> (\<forall>e. orchestrator_process env (unprocessedEntity it) (state it) = Inl e \<longrightarrow>
        snd (try_body env it) = Inl e
      \<and> rejected (processTask env it) = assertError env e
      \<and> \<not> (\<exists>ev \<in> set (events (processTask env it)). is_store_write ev \<or> is_stitch ev))
   \<and> (\<forall>e e'. snd (try_body env it) = Inl e \<and> assertError env e = Some e' \<longrightarrow>
        rejected (processTask env it) = Some e'
      \<and> tracker_outcomes (events (processTask env it)) = [])"
proof -
  have caught: "rejected (processTask env it) = None
      \<and> events (processTask env it) = ProcessStart (entityRef it) # fst (try_body env it) @ [MarkFailed e]
      \<and> tracker_outcomes (events (processTask env it)) = [''failed'']"
    if "snd (try_body env it) = Inl e" and "assertError env e = None" for e
    using that
    by (simp add: processTask_events processTask_rejected tracker_outcomes_def
          List.map_filter_simps map_filter_append thrown_body_labels)
  have orch: "snd (try_body env it) = Inl e
      \<and> rejected (processTask env it) = assertError env e
      \<and> \<not> (\<exists>ev \<in> set (events (processTask env it)). is_store_write ev \<or> is_stitch ev)"
    if "orchestrator_process env (unprocessedEntity it) (state it) = Inl e" for e
  proof -
    have "try_body env it = ([CallProcess (unprocessedEntity it) (state it)], Inl e)"
      using that by (simp add: try_body_before_hash hashed_result_throw)
    then show ?thesis
      by (auto simp: processTask_events processTask_rejected split: option.splits)
  qed
  have escaped: "rejected (processTask env it) = Some e'
      \<and> tracker_outcomes (events (processTask env it)) = []"
    if "snd (try_body env it) = Inl e" and "assertError env e = Some e'" for e e'
    using that
    by (simp add: processTask_events processTask_rejected tracker_outcomes_def
          List.map_filter_simps map_filter_append thrown_body_labels)
  from caught orch escaped show ?thesis by blast
qed

theorem errors_are_caught_and_tracked_witness:
  "rejected (processTask (throwing_env (ThrownError (Error ''Error'' ''boom''))) (sample_item None '''')) = None
   \<and> tracker_outcomes (events (processTask (throwing_env (ThrownError (Error ''Error'' ''boom'')))
        (sample_item None ''''))) = [''failed'']
   \<and> \<not> (\<exists>ev \<in> set (events (processTask (throwing_env (ThrownError (Error ''Error'' ''boom'')))
        (sample_item None ''''))). is_store_write ev \<or> is_stitch ev)
   \<and> rejected (processTask (throwing_env (ThrownValue (JStr ''boom''))) (sample_item None ''''))
       = Some (ThrownError (Error ''Error'' ''Encountered invalid error''))"
proof -
  let ?e = "ThrownError (Error ''Error'' ''boom'')"
  let ?v = "ThrownValue (JStr ''boom'')"
  let ?it = "sample_item None ''''"
  have a: "orchestrator_process (throwing_env ?e) (unprocessedEntity ?it) (state ?it) = Inl ?e"
    and b: "orchestrator_process (throwing_env ?v) (unprocessedEntity ?it) (state ?it) = Inl ?v"
    by simp_all
  have pass: "assertError (throwing_env ?e) ?e = None"
    and fail: "assertError (throwing_env ?v) ?v = Some (ThrownError (Error ''Error'' ''Encountered invalid error''))"
    by (simp_all add: sample_assertError_def)
  note t1 = errors_are_caught_and_tracked [of "throwing_env ?e" ?it]
  note t2 = errors_are_caught_and_tracked [of "throwing_env ?v" ?it]
  from t1 a have body: "snd (try_body (throwing_env ?e) ?it) = Inl ?e"
    and quiet: "\<not> (\<exists>ev \<in> set (events (processTask (throwing_env ?e) ?it)). is_store_write ev \<or> is_stitch ev)"
    by blast+
  from t1 body pass have "rejected (processTask (throwing_env ?e) ?it) = None"
    and "tracker_outcomes (events (processTask (throwing_env ?e) ?it)) = [''failed'']"
    by blast+
  moreover from t2 b have "rejected (processTask (throwing_env ?v) ?it) = assertError (throwing_env ?v) ?v"
    by blast
  ultimately show ?thesis using quiet fail by simp
qed

theorem non_error_throw_escapes:
  "rejected (processTask (throwing_env (ThrownValue (JStr ''boom''))) (sample_item None ''''))
     = Some (ThrownError (Error ''Error'' ''Encountered invalid error''))
   \<and> tracker_outcomes (events (processTask (throwing_env (ThrownValue (JStr ''boom'')))
        (sample_item None ''''))) = []"
  by (simp add: processTask_def try_body_def hashed_result_def sample_assertError_def
        tracker_outcomes_def List.map_filter_simps)

text \<open>
  C8, as the code has it. \<open>start\<close> on an engine that holds a \<open>stopFunc\<close> fails with the
  error "Processing engine is already started" before any pipeline is started; since
  \<open>start\<close> is \<open>async\<close>, the error rejects the promise that \<open>start\<close> returns and is never
  thrown synchronously. A second \<open>start\<close> after a successful one fails in this way.
  \<open>stop\<close> on an engine that is not started changes nothing, and \<open>stop\<close> twice is \<open>stop\<close>
  once; \<open>stop\<close> on a started engine halts its pipeline and clears \<open>stopFunc\<close>, after
  which \<open>start\<close> succeeds again.
\<close>

theorem start_stop_lifecycle:
  "(stopFunc eng \<noteq> None \<longrightarrow>
      start eng = Rejects (ThrownError (Error ''Error'' ''Processing engine is already started'')))
   \<and> (\<forall>e. start eng \<noteq> ThrowsSync e)
   \<and> (\<forall>eng'. start eng = Resolves eng' \<longrightarrow>
        stopFunc eng = None \<and> stopFunc eng' \<noteq> None
        \<and> set (running eng') = insert (the (stopFunc eng')) (set (running eng))
        \<and> start eng' = Rejects (ThrownError (Error ''Error'' ''Processing engine is already started'')))
   \<and> (stopFunc eng = None \<longrightarrow> stop eng = eng)
   \<and> stop (stop eng) = stop eng
   \<and> (\<forall>h. stopFunc eng = Some h \<longrightarrow>
        stopFunc (stop eng) = None \<and> h \<notin> set (running (stop eng))
        \<and> (\<exists>eng'. start (stop eng) = Resolves eng' \<and> stopFunc eng' \<noteq> None))"
  by (auto simp: start_def start_body_def stop_def startTaskPipeline_def call_stopFunc_def
        split: option.splits if_splits)

theorem start_stop_lifecycle_witness:
  "start \<lparr>stopFunc = Some 0, running = [0], next_handle = 1\<rparr>
     = Rejects (ThrownError (Error ''Error'' ''Processing engine is already started''))
   \<and> stop \<lparr>stopFunc = None, running = [], next_handle = 0\<rparr>
       = \<lparr>stopFunc = None, running = [], next_handle = 0\<rparr>
   \<and> stopFunc (stop \<lparr>stopFunc = Some 0, running = [0], next_handle = 1\<rparr>) = None
   \<and> 0 \<notin> set (running (stop \<lparr>stopFunc = Some 0, running = [0], next_handle = 1\<rparr>))
   \<and> (\<exists>eng'. start (stop \<lparr>stopFunc = Some 0, running = [0], next_handle = 1\<rparr>) = Resolves eng')"
  using start_stop_lifecycle [of "\<lparr>stopFunc = Some 0, running = [0], next_handle = 1\<rparr>"]
    start_stop_lifecycle [of "\<lparr>stopFunc = None, running = [], next_handle = 0\<rparr>"]
  by auto

theorem second_start_rejects_its_promise:
  "start \<lparr>stopFunc = Some 0, running = [0], next_handle = 1\<rparr>
     = Rejects (ThrownError (Error ''Error'' ''Processing engine is already started''))
   \<and> start \<lparr>stopFunc = Some 0, running = [0], next_handle = 1\<rparr>
     \<noteq> ThrowsSync (ThrownError (Error ''Error'' ''Processing engine is already started''))"
  by (simp add: start_def start_body_def)

text \<open>
  C9. For every batch size \<open>loadTasks\<close> returns a list and never throws; when the
  store's transaction throws, it logs a warning and returns the empty list.
\<close>

theorem loadTasks_swallows_store_failure:
  "(\<exists>items. snd (loadTasks env batch) = Inr items) \<and>
   (\<forall>e. getProcessableEntities env batch = Inl e \<longrightarrow>
      loadTasks env batch = ([CallGetProcessableEntities batch, LoggerWarnLoad e], Inr []))"
  by (cases "getProcessableEntities env batch") (simp_all add: loadTasks_def)

theorem loadTasks_swallows_store_failure_witness:
  "loadTasks (failing_env\<lparr>getProcessableEntities := \<lambda>n. Inl (ThrownValue (JStr ''connection lost''))\<rparr>) 10
     = ([CallGetProcessableEntities 10, LoggerWarnLoad (ThrownValue (JStr ''connection lost''))], Inr [])"
  using loadTasks_swallows_store_failure
    [of "failing_env\<lparr>getProcessableEntities := \<lambda>n. Inl (ThrownValue (JStr ''connection lost''))\<rparr>" 10]
  by simp

text \<open>
  C10. A result that is not \<open>ok\<close> gives exactly one \<open>updateEntityCache\<close> call in the
  run, right after the orchestrator's answer and before the digest is computed and
  compared. So a failure whose hash is the previous one, which the tracker counts as
  \<open>unchanged\<close>, has written the cache state all the same; and with no previous state,
  or one without an integer \<open>ttl\<close>, the state written is \<open>{}\<close>.
\<close>

theorem failure_always_writes_cache:
  assumes "orchestrator_process env (unprocessedEntity it) (state it) = Inr result"
    and "\<not> ok result"
  shows "(\<exists>rest. events (processTask env it) =
            [ProcessStart (entityRef it), CallProcess (unprocessedEntity it) (state it),
             MarkProcessorsCompleted False,
             CallUpdateEntityCache (item_id it) (decayed_state (state it))] @ rest
          \<and> \<not> (\<exists>ev \<in> set rest. is_updateEntityCache ev)
          \<and> (updateEntityCache env (item_id it) (decayed_state (state it)) = None \<longrightarrow>
               HashDigest [errorsString env result] \<in> set rest))
     \<and> filter is_updateEntityCache (events (processTask env it))
         = [CallUpdateEntityCache (item_id it) (decayed_state (state it))]
     \<and> (snd (hashed_result env it) = Inr (result, resultHash it) \<longrightarrow>
          tracker_outcomes (events (processTask env it)) = [''unchanged''])
     \<and> (state it = None \<or>
          (\<exists>obj. state it = Some obj \<and> \<not> (\<exists>n. map_of obj ''ttl'' = Some (JNum n))) \<longrightarrow>
          decayed_state (state it) = [])"
proof -
  let ?pre = "[CallProcess (unprocessedEntity it) (state it), MarkProcessorsCompleted False,
               CallUpdateEntityCache (item_id it) (decayed_state (state it))]"
  let ?fail = "case snd (try_body env it) of
        Inr u \<Rightarrow> []
      | Inl e \<Rightarrow> (case assertError env e of None \<Rightarrow> [MarkFailed e] | Some e' \<Rightarrow> [])"
  have fail_quiet: "\<forall>ev \<in> set ?fail. \<not> is_updateEntityCache ev"
    by (auto split: sum.splits option.splits)
  have shape: "\<exists>rest. fst (try_body env it) = ?pre @ rest
      \<and> (\<forall>ev \<in> set rest. \<not> is_updateEntityCache ev)
      \<and> (updateEntityCache env (item_id it) (decayed_state (state it)) = None \<longrightarrow>
               HashDigest [errorsString env result] \<in> set rest)"
  proof (cases "updateEntityCache env (item_id it) (decayed_state (state it))")
    case (Some e)
    with assms have "hashed_result env it = (?pre, Inl e)"
      by (simp add: hashed_result_failed)
    then have "fst (try_body env it) = ?pre @ []"
      by (simp add: try_body_before_hash)
    with Some show ?thesis by simp
  next
    case None
    let ?h = "hash_digest env [errorsString env result]"
    let ?last = "if ?h = resultHash it then emit [MarkSuccessfulWithNoChanges]
                 else errors_step env it result ?h"
    from None assms have hr: "hashed_result env it =
        (?pre @ fst (warn_errors env it result) @ [HashDigest [errorsString env result]],
         Inr (result, ?h))"
      by (simp add: hashed_result_failed)
    then have "fst (try_body env it) =
        ?pre @ (fst (warn_errors env it result) @ [HashDigest [errorsString env result]] @ fst ?last)"
      using assms(2) by (simp add: try_body_at_hash)
    moreover have "\<forall>ev \<in> set (fst (warn_errors env it result) @
        [HashDigest [errorsString env result]] @ fst ?last). \<not> is_updateEntityCache ev"
      by (auto simp: emit_def dest: warn_errors_events errors_step_no_cache_write)
    ultimately show ?thesis by auto
  qed
  from shape obtain rest where rest: "fst (try_body env it) = ?pre @ rest"
    and quiet: "\<forall>ev \<in> set rest. \<not> is_updateEntityCache ev"
    and digest: "updateEntityCache env (item_id it) (decayed_state (state it)) = None \<longrightarrow>
               HashDigest [errorsString env result] \<in> set rest"
    by (elim exE conjE)
  have ev: "events (processTask env it) =
      [ProcessStart (entityRef it), CallProcess (unprocessedEntity it) (state it),
       MarkProcessorsCompleted False,
       CallUpdateEntityCache (item_id it) (decayed_state (state it))] @ (rest @ ?fail)"
    by (simp add: processTask_events rest)
  have quiet': "\<not> (\<exists>ev \<in> set (rest @ ?fail). is_updateEntityCache ev)"
    using quiet fail_quiet by auto
  have once: "filter is_updateEntityCache (events (processTask env it))
         = [CallUpdateEntityCache (item_id it) (decayed_state (state it))]"
    using quiet' by (simp add: ev filter_empty_conv)
  have first: "\<exists>rest. events (processTask env it) =
            [ProcessStart (entityRef it), CallProcess (unprocessedEntity it) (state it),
             MarkProcessorsCompleted False,
             CallUpdateEntityCache (item_id it) (decayed_state (state it))] @ rest
          \<and> \<not> (\<exists>ev \<in> set rest. is_updateEntityCache ev)
          \<and> (updateEntityCache env (item_id it) (decayed_state (state it)) = None \<longrightarrow>
               HashDigest [errorsString env result] \<in> set rest)"
    using ev quiet' digest by (intro exI [of _ "rest @ ?fail"]) auto
  have unchanged: "snd (hashed_result env it) = Inr (result, resultHash it) \<longrightarrow>
          tracker_outcomes (events (processTask env it)) = [''unchanged'']"
    using unchanged_run by blast
  have empty: "state it = None \<or>
          (\<exists>obj. state it = Some obj \<and> \<not> (\<exists>n. map_of obj ''ttl'' = Some (JNum n))) \<longrightarrow>
          decayed_state (state it) = []"
    using no_integer_ttl [of "state it"] by (auto simp: decayed_state_expired)
  from first once unchanged empty show ?thesis by blast
qed

theorem failure_always_writes_cache_witness:
  "filter is_updateEntityCache (events (processTask failing_env stateless_unchanged_item))
     = [CallUpdateEntityCache ''id-1'' []]
   \<and> tracker_outcomes (events (processTask failing_env stateless_unchanged_item)) = [''unchanged'']"
proof -
  let ?it = "stateless_unchanged_item"
  have st: "state ?it = None" and id: "item_id ?it = ''id-1''"
    by (simp_all add: stateless_unchanged_item_def sample_item_def)
  have a: "orchestrator_process failing_env (unprocessedEntity ?it) (state ?it) = Inr sample_failure"
    by simp
  have b: "\<not> ok sample_failure" by (simp add: sample_failure_def)
  have h: "snd (hashed_result failing_env ?it) = Inr (sample_failure, resultHash ?it)"
    by (simp add: hashed_result_reaches cache_step_def call_def sample_failure_def
          stateless_unchanged_item_def sample_item_def)
  from failure_always_writes_cache [OF a b]
  have "filter is_updateEntityCache (events (processTask failing_env ?it))
         = [CallUpdateEntityCache (item_id ?it) (decayed_state (state ?it))]"
    and "snd (hashed_result failing_env ?it) = Inr (sample_failure, resultHash ?it) \<longrightarrow>
          tracker_outcomes (events (processTask failing_env ?it)) = [''unchanged'']"
    and "state ?it = None \<or>
          (\<exists>obj. state ?it = Some obj \<and> \<not> (\<exists>n. map_of obj ''ttl'' = Some (JNum n))) \<longrightarrow>
          decayed_state (state ?it) = []"
    by blast+
  with h st id show ?thesis by simp
qed

end
